theory Spec2Isabelle
  imports Complex_Main "HOL-Library.Monad_Syntax"
begin

section \<open>The Cox-Ross-Rubinstein lattice\<close>

text \<open>
  The class \<open>CoxRossRubinsteinModel\<close> of the binomial-tree notebook. Python floats are
  modelled as reals, Python integers as \<open>int\<close>, numpy arrays as lists (a two-dimensional
  array as the list of its rows). The fields keep their names behind the prefix
  \<open>self_\<close>, as the methods read them.
\<close>

datatype error =
  ValueError    \<comment> \<open>raised by \<open>np.linspace\<close> for a negative number of samples\<close>
| NoRootInBracket    \<comment> \<open>the \<open>ValueError\<close> of \<open>brentq\<close>: no sign change over the bracket\<close>

record CoxRossRubinsteinModel =
  self_S0 :: real
  self_r :: real
  self_d :: real
  self_u :: real
  self_T :: real
  self_N :: int
  self_times :: "real list"
  self_gridPoints :: "real list list"

text \<open>\<open>np.linspace(start, stop, num)\<close>: \<open>num\<close> equidistant samples, both ends included.\<close>

definition linspace :: "real \<Rightarrow> real \<Rightarrow> int \<Rightarrow> error + real list" where
  "linspace start stop num =
     (if num < 0 then Inl ValueError
      else Inr (map (\<lambda>i. if num = 1 then start
                          else start + real_of_int i * ((stop - start) / real_of_int (num - 1)))
                    [0..num - 1]))"

text \<open>
  The constructor. The list \<open>gridPoints\<close> starts as \<open>[ [1.0] ]\<close> and receives one row
  for each \<open>k\<close> in \<open>range(1, N+1)\<close>, with the entries
  \<open>(1+d)**(k-i) * (1+u)**i\<close> for \<open>i\<close> in \<open>range(k+1)\<close>.
\<close>

definition CoxRossRubinsteinModel_init ::
  "real \<Rightarrow> real \<Rightarrow> real \<Rightarrow> real \<Rightarrow> real \<Rightarrow> int \<Rightarrow> error + CoxRossRubinsteinModel" where
  "CoxRossRubinsteinModel_init S0 r d u T N =
     (case linspace 0 T (N + 1) of
        Inl e \<Rightarrow> Inl e
      | Inr ts \<Rightarrow>
          Inr \<lparr> self_S0 = S0, self_r = r, self_d = d, self_u = u, self_T = T, self_N = N,
                self_times = ts,
                self_gridPoints =
                  [1] # map (\<lambda>k. map (\<lambda>i. (1 + d) ^ nat (k - i) * (1 + u) ^ nat i) [0..k])
                            [1..N] \<rparr>)"

text \<open>
  \<open>moves(depth)\<close>: the recursion stops at \<open>depth == 1\<close> only, so a call with
  \<open>depth < 1\<close> never returns; not returning is the value \<open>None\<close>. The argument
  \<open>depth\<close> is optional (\<open>None\<close> stands for \<open>self.N\<close>). \<open>D\<close> and \<open>U\<close> put a
  column of \<open>d\<close>, of \<open>u\<close>, in front of the sub-tree, and \<open>D\<close>'s rows come first.
\<close>

partial_function (option) moves ::
  "CoxRossRubinsteinModel \<Rightarrow> int option \<Rightarrow> real list list option" where
  "moves self depth =
     (let depth = (case depth of None \<Rightarrow> self_N self | Some k \<Rightarrow> k) in
      if depth = 1 then Some [[self_d self], [self_u self]]
      else do {
        subTree \<leftarrow> moves self (Some (depth - 1));
        let D = map (\<lambda>row. self_d self # row) subTree;
        let U = map (\<lambda>row. self_u self # row) subTree;
        Some (D @ U)
      })"

declare moves.simps [code]

text \<open>
  \<open>paths()\<close>: \<open>p\<close> starts as an array of ones with one column more than \<open>m\<close>; the loop
  over \<open>k\<close> in \<open>range(N)\<close> overwrites column \<open>k+1\<close> of every row by column \<open>k\<close> times
  \<open>1 + m[:,k]\<close>. Whenever \<open>moves()\<close> returns, \<open>m\<close> has \<open>N\<close> columns and \<open>p\<close> has
  \<open>N+1\<close>, so that every index of the loop is in range.
\<close>

definition shape1 :: "real list list \<Rightarrow> nat" where
  "shape1 m = (case m of [] \<Rightarrow> 0 | row # _ \<Rightarrow> length row)"

definition paths_step :: "real list list \<Rightarrow> real list list \<Rightarrow> nat \<Rightarrow> real list list" where
  "paths_step m p k = map2 (\<lambda>prow mrow. prow[Suc k := prow ! k * (1 + mrow ! k)]) p m"

definition paths :: "CoxRossRubinsteinModel \<Rightarrow> real list list option" where
  "paths self =
     (case moves self None of
        None \<Rightarrow> None
      | Some m \<Rightarrow>
          Some (foldl (paths_step m)
                      (replicate (length m) (replicate (shape1 m + 1) 1))
                      [0..<nat (self_N self)]))"

text \<open>
  The closed form of a row of \<open>p\<close> after the columns up to \<open>k\<close> have been written:
  entry \<open>c \<le> k\<close> is the product of the first \<open>c\<close> factors \<open>1 + move\<close>, the later
  entries are still \<open>1\<close>. It is used in the proofs only.
\<close>

definition cumrow :: "nat \<Rightarrow> nat \<Rightarrow> real list \<Rightarrow> real list" where
  "cumrow n k mrow = map (\<lambda>c. if c \<le> k then prod_list (map (\<lambda>x. 1 + x) (take c mrow)) else 1) [0..<Suc n]"

text \<open>The model of the notebook's own example, with one time step.\<close>

definition crr_example :: CoxRossRubinsteinModel where
  "crr_example =
     \<lparr> self_S0 = 100, self_r = 0, self_d = - (1/20), self_u = 1/10, self_T = 1, self_N = 1,
       self_times = [0, 1], self_gridPoints = [[1], [19/20, 11/10]] \<rparr>"


section \<open>Black-Scholes analytics\<close>

subsection \<open>The standard normal distribution\<close>

text \<open>
  \<open>norm.pdf\<close> and \<open>norm.cdf\<close> of \<open>scipy.stats\<close> are library functions: the density
  \<open>exp (- x\<^sup>2 / 2) / sqrt (2 pi)\<close> of the standard normal distribution and its
  distribution function. The distribution function is written as its power series around
  \<open>0\<close>, \<open>1/2 + (1 / sqrt (2 pi)) * (\<Sum>k. (-1)^k x^(2k+1) / (2^k k! (2k+1)))\<close>, which is
  the antiderivative of the density with value \<open>1/2\<close> at \<open>0\<close> (lemmas \<open>norm_cdf_deriv\<close>
  and \<open>norm_cdf_0\<close> below).
\<close>

definition norm_pdf :: "real \<Rightarrow> real" where
  "norm_pdf x = exp (- (x\<^sup>2) / 2) / sqrt (2 * pi)"

definition cdf_coeff :: "nat \<Rightarrow> real" where
  "cdf_coeff k = (- 1 / 2) ^ k / (fact k * (2 * real k + 1))"

definition norm_cdf :: "real \<Rightarrow> real" where
  "norm_cdf x = 1 / 2 + x * (\<Sum>k. cdf_coeff k * (x\<^sup>2) ^ k) / sqrt (2 * pi)"

subsection \<open>The Black formula and the Black-Scholes price\<close>

text \<open>
  The functions of the Black-Scholes notebook, over the reals. \<open>callOrPut\<close> is \<open>+1\<close>
  for a call and \<open>-1\<close> for a put. \<open>Black\<close> returns the intrinsic value when the total
  standard deviation \<open>nu\<close> is below \<open>1.0e-12\<close> and calls \<open>BlackOverK\<close>, which divides by
  \<open>nu\<close>, only otherwise.
\<close>

definition BlackOverK :: "real \<Rightarrow> real \<Rightarrow> real \<Rightarrow> real" where
  "BlackOverK moneyness nu callOrPut =
     (let d1 = ln moneyness / nu + nu / 2;
          d2 = d1 - nu
      in callOrPut * (moneyness * norm_cdf (callOrPut * d1) - norm_cdf (callOrPut * d2)))"

definition Black :: "real \<Rightarrow> real \<Rightarrow> real \<Rightarrow> real \<Rightarrow> real" where
  "Black forward strike nu callOrPut =
     (if nu < 1 / 10 ^ 12 then max (callOrPut * (forward - strike)) 0
      else strike * BlackOverK (forward / strike) nu callOrPut)"

definition BlackScholesPrice :: "real \<Rightarrow> real \<Rightarrow> real \<Rightarrow> real \<Rightarrow> real \<Rightarrow> real \<Rightarrow> real" where
  "BlackScholesPrice underlying strike rate sigma T callOrPut =
     (let df = exp (- rate * T);
          nu = sigma * sqrt T
      in df * Black (underlying / df) strike nu callOrPut)"

definition BlackScholesTheta :: "real \<Rightarrow> real \<Rightarrow> real \<Rightarrow> real \<Rightarrow> real \<Rightarrow> real \<Rightarrow> real" where
  "BlackScholesTheta underlying strike rate sigma T callOrPut =
     (let moneyness = exp (rate * T) * underlying / strike;
          nu = sigma * sqrt T;
          d1 = ln moneyness / nu + nu / 2;
          d2 = d1 - nu
      in underlying * norm_pdf d1 * sigma / 2 / sqrt T +
         callOrPut * rate * strike * exp (- rate * T) * norm_cdf (callOrPut * d2))"

subsection \<open>Implied volatility\<close>

text \<open>
  \<open>BlackImpliedVol\<close> hands its objective to \<open>brentq\<close> of \<open>scipy.optimize\<close>, a library
  function, with the bracket \<open>[0.01 * sqrt T, 1.00 * sqrt T]\<close> and \<open>xtol = 1.0e-8\<close>, and
  divides the root by \<open>sqrt T\<close>. There is no handler around the call: an error of
  \<open>brentq\<close> is the result of \<open>BlackImpliedVol\<close>. The root finder is a parameter of the
  model. This is the function in exact arithmetic: the bracket, the objective and the
  final division are computed without rounding; the same body in double precision is
  \<open>BlackImpliedVol_fl\<close> below.
\<close>

type_synonym root_finder = "(real \<Rightarrow> real) \<Rightarrow> real \<Rightarrow> real \<Rightarrow> real \<Rightarrow> error + real"

definition BlackImpliedVol ::
  "root_finder \<Rightarrow> real \<Rightarrow> real \<Rightarrow> real \<Rightarrow> real \<Rightarrow> real \<Rightarrow> error + real" where
  "BlackImpliedVol brentq price strike forward T callOrPut =
     (let objective = (\<lambda>nu. Black forward strike nu callOrPut - price) in
      case brentq objective (1 / 100 * sqrt T) (1 * sqrt T) (1 / 10 ^ 8) of
        Inl e \<Rightarrow> Inl e
      | Inr x \<Rightarrow> Inr (x / sqrt T))"

text \<open>
  What the documentation of \<open>brentq(f, a, b, xtol)\<close> promises, in exact arithmetic, for a
  bracket \<open>a < b\<close> and \<open>xtol > 0\<close>: when \<open>f a\<close> and \<open>f b\<close> have the same strict sign
  the call raises (\<open>f(a) and f(b) must have different signs\<close>); otherwise it returns a
  point \<open>x0\<close> of the bracket, and for a continuous \<open>f\<close> an exact root \<open>x\<close> lies within
  \<open>xtol + rtol * \<bar>x0\<bar>\<close> of it, where \<open>rtol\<close> has its default \<open>4 * eps = 4 / 2^52\<close>.
  The iteration limit of \<open>brentq\<close> is not modelled.
\<close>

definition brentq_rtol :: real where
  "brentq_rtol = 4 / 2 ^ 52"

definition brentq_contract :: "root_finder \<Rightarrow> bool" where
  "brentq_contract brentq \<longleftrightarrow>
     (\<forall>f a b xtol. a < b \<and> 0 < xtol \<longrightarrow>
        (0 < f a * f b \<longrightarrow> brentq f a b xtol = Inl NoRootInBracket) \<and>
        (f a * f b \<le> 0 \<longrightarrow>
           (\<exists>x0. brentq f a b xtol = Inr x0 \<and> a \<le> x0 \<and> x0 \<le> b \<and>
                 (continuous_on {a..b} f \<longrightarrow>
                    (\<exists>x. a \<le> x \<and> x \<le> b \<and> f x = 0 \<and>
                         \<bar>x - x0\<bar> \<le> xtol + brentq_rtol * \<bar>x0\<bar>)))))"

text \<open>
  A root finder that meets this contract: bisection, run for as many halvings as bring
  the bracket below \<open>xtol\<close>. The theorems about \<open>BlackImpliedVol\<close> hold for every root
  finder that meets the contract; this one instantiates them.
\<close>

fun bisect :: "nat \<Rightarrow> (real \<Rightarrow> real) \<Rightarrow> real \<Rightarrow> real \<Rightarrow> real" where
  "bisect 0 f a b = a"
| "bisect (Suc n) f a b =
     (let m = (a + b) / 2 in
      if f a * f m \<le> 0 then bisect n f a m else bisect n f m b)"

definition brentq_bisect :: root_finder where
  "brentq_bisect f a b xtol =
     (if 0 < f a * f b then Inl NoRootInBracket
      else Inr (bisect (nat \<lceil>(b - a) / xtol\<rceil>) f a b))"


subsection \<open>Double precision\<close>

text \<open>
  The functions above compute over the reals. Where a result depends on how the last
  digit is rounded, the body of \<open>BlackImpliedVol\<close> is read in double precision
  instead: \<open>rd\<close> rounds a real to the nearest number with a significand of 53 bits, ties
  to even (the exponent range, overflow and subnormal numbers, is not modelled), and every
  arithmetic operation of the body (\<open>np.sqrt\<close>, \<open>*\<close>, \<open>-\<close>, \<open>/\<close>) rounds its exact result.
  The value of \<open>Black\<close> in doubles depends on \<open>np.log\<close> and \<open>norm.cdf\<close>; it is a
  parameter, as the root finder is.
\<close>

definition rne :: "real \<Rightarrow> int" where
  "rne x =
     (let f = \<lfloor>x\<rfloor> in
      if x - of_int f < 1 / 2 then f
      else if 1 / 2 < x - of_int f then f + 1
      else if even f then f else f + 1)"

definition rd :: "real \<Rightarrow> real" where
  "rd x =
     (if x = 0 then 0
      else let e = \<lfloor>log 2 \<bar>x\<bar>\<rfloor> - 52
           in sgn x * of_int (rne (\<bar>x\<bar> / 2 powr of_int e)) * 2 powr of_int e)"

definition BlackImpliedVol_fl ::
  "root_finder \<Rightarrow> (real \<Rightarrow> real \<Rightarrow> real \<Rightarrow> real \<Rightarrow> real) \<Rightarrow>
     real \<Rightarrow> real \<Rightarrow> real \<Rightarrow> real \<Rightarrow> real \<Rightarrow> error + real" where
  "BlackImpliedVol_fl brentq Black_fl price strike forward T callOrPut =
     (let objective = (\<lambda>nu. rd (Black_fl forward strike nu callOrPut - price)) in
      case brentq objective (rd (rd (1 / 100) * rd (sqrt T))) (rd (rd 1 * rd (sqrt T)))
             (rd (1 / 10 ^ 8)) of
        Inl e \<Rightarrow> Inl e
      | Inr x \<Rightarrow> Inr (rd (x / rd (sqrt T))))"

text \<open>
  \<open>brentq\<close> evaluates the objective at both ends of the bracket first and returns an end
  at once when the objective is exactly zero there. Bisection as above does the same at
  the lower end.
\<close>

definition exact_end :: "root_finder \<Rightarrow> bool" where
  "exact_end brentq \<longleftrightarrow> (\<forall>f a b xtol. f a = 0 \<longrightarrow> brentq f a b xtol = Inr a)"

text \<open>One evaluation of \<open>Black\<close> in doubles: the exact value, rounded once.\<close>

definition Black_rounded :: "real \<Rightarrow> real \<Rightarrow> real \<Rightarrow> real \<Rightarrow> real" where
  "Black_rounded forward strike nu callOrPut = rd (Black forward strike nu callOrPut)"


section \<open>Properties of the lattice\<close>

subsection \<open>Auxiliary facts\<close>

lemma init_ok:
  assumes "-1 \<le> N"
  shows "\<exists>ts. CoxRossRubinsteinModel_init S0 r d u T N =
     Inr \<lparr> self_S0 = S0, self_r = r, self_d = d, self_u = u, self_T = T, self_N = N,
                self_times = ts,
                self_gridPoints =
                  [1] # map (\<lambda>k. map (\<lambda>i. (1 + d) ^ nat (k - i) * (1 + u) ^ nat i) [0..k])
                            [1..N] \<rparr>"
  using assms by (simp add: CoxRossRubinsteinModel_init_def linspace_def)

lemma gridPoints_row:
  fixes d u :: real
  assumes "0 \<le> k" "k \<le> N"
  shows "([1] # map (\<lambda>k. map (\<lambda>i. (1 + d) ^ nat (k - i) * (1 + u) ^ nat i) [0..k]) [1..N]) ! nat k
    = map (\<lambda>i. (1 + d) ^ nat (k - i) * (1 + u) ^ nat i) [0..k]"
proof (cases "k = 0")
  case True
  then show ?thesis by (simp add: upto.simps)
next
  case False
  with assms have k: "1 \<le> k" by simp
  then obtain j where j: "nat k = Suc j" by (cases "nat k") auto
  have "int j = k - 1" using j k by linarith
  with assms have "j < length [1..N]" "[1..N] ! j = k" by auto
  then show ?thesis using j by simp
qed

lemma moves_Suc:
  "moves self (Some (int (Suc n))) =
     Some (product_lists (replicate (Suc n) [self_d self, self_u self]))"
proof (induction n)
  case 0
  show ?case by (subst moves.simps) simp
next
  case (Suc n)
  have e: "int (Suc (Suc n)) - 1 = int (Suc n)" by simp
  have ne: "int (Suc (Suc n)) \<noteq> 1" by simp
  show ?case
    apply (subst moves.simps)
    apply (simp only: Let_def option.case e ne if_False Suc)
    apply simp
    done
qed

lemma cumrow_0: "cumrow n 0 mrow = replicate (Suc n) 1"
  unfolding cumrow_def
  by (rule nth_equalityI) (auto simp del: upt_Suc)

lemma cumrow_Suc:
  assumes "k < n" "length mrow = n"
  shows "(cumrow n k mrow)[Suc k := cumrow n k mrow ! k * (1 + mrow ! k)] = cumrow n (Suc k) mrow"
proof (rule nth_equalityI)
  show "length ((cumrow n k mrow)[Suc k := cumrow n k mrow ! k * (1 + mrow ! k)]) = length (cumrow n (Suc k) mrow)"
    by (simp add: cumrow_def)
next
  fix c assume "c < length ((cumrow n k mrow)[Suc k := cumrow n k mrow ! k * (1 + mrow ! k)])"
  then have c: "c < Suc n" by (simp add: cumrow_def)
  show "(cumrow n k mrow)[Suc k := cumrow n k mrow ! k * (1 + mrow ! k)] ! c = cumrow n (Suc k) mrow ! c"
  proof (cases "c = Suc k")
    case True
    have "take (Suc k) mrow = take k mrow @ [mrow ! k]"
      using assms by (simp add: take_Suc_conv_app_nth)
    then show ?thesis using True c assms
      by (simp add: cumrow_def nth_append del: upt_Suc)
  next
    case False
    then show ?thesis using c assms
      by (auto simp add: cumrow_def nth_append simp del: upt_Suc)
  qed
qed

lemma paths_step_cumrow:
  assumes "k < n" "\<forall>mrow\<in>set m. length mrow = n"
  shows "paths_step m (map (cumrow n k) m) k = map (cumrow n (Suc k)) m"
  using assms
  by (simp add: paths_step_def zip_map1 zip_same_conv_map cumrow_Suc)

lemma paths_loop:
  assumes "\<forall>mrow\<in>set m. length mrow = n" "k \<le> n"
  shows "foldl (paths_step m) (replicate (length m) (replicate (Suc n) 1)) [0..<k]
           = map (cumrow n k) m"
  using assms(2)
proof (induction k)
  case 0
  show ?case by (simp add: cumrow_0 map_replicate_const)
next
  case (Suc k)
  then show ?case using assms(1) by (simp add: paths_step_cumrow)
qed

lemma rows_of_moves:
  "row \<in> set (product_lists (replicate n [a, b])) \<longleftrightarrow> length row = n \<and> set row \<subseteq> {a, b}"
  by (induction n arbitrary: row) (auto simp: length_Suc_conv)

lemma length_moves: "length (product_lists (replicate n [a, b])) = 2 ^ n"
  by (induction n) auto

lemma terminal_product:
  fixes d u :: real
  assumes "set row \<subseteq> {d, u}"
  shows "prod_list (map (\<lambda>x. 1 + x) row) =
           (1 + d) ^ (length row - length (filter (\<lambda>x. x = u) row)) * (1 + u) ^ length (filter (\<lambda>x. x = u) row)"
  using assms
proof (induction row)
  case Nil
  show ?case by simp
next
  case (Cons x row)
  have le: "length (filter (\<lambda>x. x = u) row) \<le> length row" by simp
  from Cons show ?case using le by (auto simp: Suc_diff_le)
qed

lemma moves_default: "moves self None = moves self (Some (self_N self))"
  by (subst moves.simps, subst (2) moves.simps) simp

lemma moves_closed_form:
  assumes "1 \<le> depth"
  shows "moves self (Some depth) =
           Some (product_lists (replicate (nat depth) [self_d self, self_u self]))"
proof -
  from assms obtain n where n: "nat depth = Suc n" by (cases "nat depth") auto
  with assms have "depth = int (Suc n)" by linarith
  then show ?thesis using moves_Suc [of self n] n by simp
qed

lemma first_move_row: "0 < n \<Longrightarrow> product_lists (replicate n [a, b]) ! 0 = replicate n a"
proof (induction n)
  case 0
  then show ?case by simp
next
  case (Suc n)
  show ?case
  proof (cases n)
    case 0
    then show ?thesis by simp
  next
    case (Suc k)
    with Suc.IH have "product_lists (replicate n [a, b]) ! 0 = replicate n a" by simp
    moreover have "0 < length (product_lists (replicate n [a, b]))" by (simp add: length_moves)
    ultimately show ?thesis by (simp add: nth_append)
  qed
qed

lemma leading_move:
  assumes "i < 2 ^ Suc n"
  shows "hd (product_lists (replicate (Suc n) [a, b]) ! i) = (if i < 2 ^ n then a else b)"
  using assms by (simp add: nth_append length_moves)


lemma paths_closed_form:
  assumes "1 \<le> self_N self"
  shows "moves self None =
           Some (product_lists (replicate (nat (self_N self)) [self_d self, self_u self]))"
    and "paths self =
           Some (map (cumrow (nat (self_N self)) (nat (self_N self)))
              (product_lists (replicate (nat (self_N self)) [self_d self, self_u self])))"
proof -
  let ?n = "nat (self_N self)"
  let ?m = "product_lists (replicate ?n [self_d self, self_u self])"
  show m: "moves self None = Some ?m"
    using moves_closed_form [OF assms] moves_default [of self] by simp
  have rows: "\<forall>mrow\<in>set ?m. length mrow = ?n" by (simp add: rows_of_moves)
  have "?m \<noteq> []" using length_moves [of ?n "self_d self" "self_u self"] by auto
  then obtain row rest where c: "?m = row # rest" by (cases ?m) auto
  then have "row \<in> set ?m" by simp
  then have "length row = ?n" using rows by blast
  then have s: "shape1 ?m = ?n" using c by (simp add: shape1_def)
  show "paths self = Some (map (cumrow ?n ?n) ?m)"
    using paths_loop [OF rows order_refl] by (simp add: paths_def m s)
qed

lemma crr_example_init:
  "CoxRossRubinsteinModel_init 100 0 (- (1/20)) (1/10) 1 1 = Inr crr_example"
  by (simp add: CoxRossRubinsteinModel_init_def linspace_def crr_example_def upto_rec1)

lemma crr_example_moves: "moves crr_example None = Some [[- (1/20)], [1/10]]"
  by (subst moves.simps) (simp add: crr_example_def)

lemma crr_example_paths: "paths crr_example = Some [[1, 19/20], [1, 11/10]]"
  by (simp add: paths_def crr_example_moves shape1_def)
     (simp add: paths_step_def crr_example_def)


subsection \<open>The grid points\<close>

text \<open>
  Claim C1, as the code has it. The constructor stores \<open>S0\<close> and never uses it: the
  lattice is normalised to the value \<open>1\<close> at time \<open>0\<close>. For every \<open>N \<ge> 1\<close> the
  constructor returns a model, \<open>gridPoints\<close> has \<open>N+1\<close> rows, row \<open>k\<close> has exactly
  \<open>k+1\<close> entries and entry \<open>i\<close> of row \<open>k\<close> is \<open>(1+d)^(k-i) * (1+u)^i\<close>, for all
  \<open>0 \<le> i \<le> k \<le> N\<close> (without the factor \<open>S0\<close>).
\<close>

theorem gridPoints_closed_form:
  assumes "1 \<le> N"
  shows "\<exists>self. CoxRossRubinsteinModel_init S0 r d u T N = Inr self
     \<and> length (self_gridPoints self) = nat N + 1
     \<and> (\<forall>k i. 0 \<le> i \<and> i \<le> k \<and> k \<le> N \<longrightarrow>
           length (self_gridPoints self ! nat k) = nat k + 1
         \<and> self_gridPoints self ! nat k ! nat i = (1 + d) ^ nat (k - i) * (1 + u) ^ nat i)"
proof -
  from init_ok [of N S0 r d u T] assms obtain self ts where
    init: "CoxRossRubinsteinModel_init S0 r d u T N = Inr self" and
    self: "self = \<lparr> self_S0 = S0, self_r = r, self_d = d, self_u = u, self_T = T, self_N = N,
                self_times = ts,
                self_gridPoints =
                  [1] # map (\<lambda>k. map (\<lambda>i. (1 + d) ^ nat (k - i) * (1 + u) ^ nat i) [0..k])
                            [1..N] \<rparr>"
    by auto
  have "length (self_gridPoints self ! nat k) = nat k + 1
         \<and> self_gridPoints self ! nat k ! nat i = (1 + d) ^ nat (k - i) * (1 + u) ^ nat i"
    if "0 \<le> i \<and> i \<le> k \<and> k \<le> N" for k i
  proof -
    have row: "self_gridPoints self ! nat k = map (\<lambda>i. (1 + d) ^ nat (k - i) * (1 + u) ^ nat i) [0..k]"
      using gridPoints_row [of k N d u] that by (simp add: self)
    have "[0..k] ! nat i = i" "nat i < length [0..k]" using that by auto
    moreover have "nat (k + 1) = Suc (nat k)" using that by linarith
    ultimately show ?thesis by (simp add: row)
  qed
  moreover have "length (self_gridPoints self) = nat N + 1" using assms by (simp add: self)
  ultimately show ?thesis using init by blast
qed

theorem gridPoints_closed_form_witness:
  "(1::int) \<le> 2 \<and> (\<exists>self. CoxRossRubinsteinModel_init 100 0 (- (1/20)) (1/10) 1 2 = Inr self
     \<and> length (self_gridPoints self ! 2) = 3
     \<and> self_gridPoints self ! 2 ! 1 = (1 + - (1/20)) ^ 1 * (1 + 1/10) ^ 1)"
proof -
  from gridPoints_closed_form [of 2 100 0 "- (1/20)" "1/10" 1] obtain self where
    init: "CoxRossRubinsteinModel_init 100 0 (- (1/20)) (1/10) 1 2 = Inr self" and
    rows: "\<forall>k i. 0 \<le> i \<and> i \<le> k \<and> k \<le> 2 \<longrightarrow>
           length (self_gridPoints self ! nat k) = nat k + 1
         \<and> self_gridPoints self ! nat k ! nat i = (1 + - (1/20)) ^ nat (k - i) * (1 + 1/10) ^ nat i"
    by auto
  from rows [rule_format, of 1 2] init show ?thesis by auto
qed

text \<open>
  Claim C1 as stated fails for \<open>S0 = 100\<close>, the spot of the notebook's own models: the
  entry \<open>gridPoints[0][0]\<close> is \<open>1\<close>, not \<open>S0 * (1+d)^0 * (1+u)^0 = 100\<close>.
\<close>

theorem gridPoints_S0_counterexample:
  "CoxRossRubinsteinModel_init 100 0 (- (1/20)) (1/10) 1 1 = Inr crr_example
   \<and> self_gridPoints crr_example ! 0 ! 0 \<noteq>
       self_S0 crr_example * (1 + self_d crr_example) ^ (0 - 0) * (1 + self_u crr_example) ^ 0"
  by (simp add: crr_example_init) (simp add: crr_example_def)


subsection \<open>The move sequences\<close>

text \<open>
  Claim C8. For every \<open>depth \<ge> 1\<close> the recursion \<open>moves(depth)\<close> returns; the result
  has exactly \<open>2^depth\<close> rows; its rows are exactly the sequences of length \<open>depth\<close> over
  \<open>{d, u}\<close>; the first row is the all-\<open>d\<close> sequence; the rows of the first half start
  with \<open>d\<close> and those of the second half with \<open>u\<close> (the first coordinate varies
  slowest); and the call without argument is the call with \<open>depth = N\<close>.
\<close>

theorem moves_enumerates:
  assumes "1 \<le> depth"
  shows "\<exists>ms. moves self (Some depth) = Some ms
     \<and> length ms = 2 ^ nat depth
     \<and> set ms = {row. length row = nat depth \<and> set row \<subseteq> {self_d self, self_u self}}
     \<and> ms ! 0 = replicate (nat depth) (self_d self)
     \<and> (\<forall>i < 2 ^ nat depth.
          hd (ms ! i) = (if i < 2 ^ (nat depth - 1) then self_d self else self_u self))
     \<and> (self_N self = depth \<longrightarrow> moves self None = Some ms)"
proof -
  let ?ms = "product_lists (replicate (nat depth) [self_d self, self_u self])"
  from assms obtain n where n: "nat depth = Suc n" by (cases "nat depth") auto
  have 1: "moves self (Some depth) = Some ?ms" using assms by (rule moves_closed_form)
  have 2: "length ?ms = 2 ^ nat depth" by (rule length_moves)
  have 3: "set ?ms = {row. length row = nat depth \<and> set row \<subseteq> {self_d self, self_u self}}"
    using rows_of_moves [of _ "nat depth" "self_d self" "self_u self"] by blast
  have 4: "?ms ! 0 = replicate (nat depth) (self_d self)"
    using n by (intro first_move_row) simp
  have 5: "\<forall>i < 2 ^ nat depth.
          hd (?ms ! i) = (if i < 2 ^ (nat depth - 1) then self_d self else self_u self)"
    unfolding n using leading_move [of _ n "self_d self" "self_u self"] by simp
  have 6: "self_N self = depth \<longrightarrow> moves self None = Some ?ms"
    using 1 moves_default [of self] by simp
  from 1 2 3 4 5 6 show ?thesis by blast
qed

theorem moves_enumerates_witness:
  "(1::int) \<le> 2 \<and> (\<exists>ms. moves crr_example (Some 2) = Some ms
     \<and> length ms = 4
     \<and> ms ! 0 = [- (1/20), - (1/20)]
     \<and> hd (ms ! 1) = - (1/20) \<and> hd (ms ! 2) = 1/10)"
proof -
  from moves_enumerates [of 2 crr_example] obtain ms where
    ms: "moves crr_example (Some 2) = Some ms" "length ms = 2 ^ nat 2"
      "ms ! 0 = replicate (nat 2) (self_d crr_example)"
      "\<forall>i < 2 ^ nat 2.
          hd (ms ! i) = (if i < 2 ^ (nat 2 - 1) then self_d crr_example else self_u crr_example)"
    by auto
  have "hd (ms ! 1) = - (1/20)" "hd (ms ! 2) = 1/10"
    using ms(4) [rule_format, of 1] ms(4) [rule_format, of 2] by (simp_all add: crr_example_def)
  moreover have "ms ! 0 = [- (1/20), - (1/20)]"
    using ms(3) by (simp add: crr_example_def numeral_2_eq_2)
  ultimately show ?thesis using ms(1,2) by simp
qed


subsection \<open>The paths\<close>

text \<open>
  Claim C3, as the code has it. For every model with \<open>N \<ge> 1\<close>, \<open>paths()\<close> returns an
  array of \<open>2^N\<close> rows and \<open>N+1\<close> columns; entry \<open>k\<close> of row \<open>j\<close> is the product of
  the first \<open>k\<close> factors \<open>1 + move\<close> of row \<open>j\<close> of \<open>moves()\<close>; the first column is
  identically \<open>1\<close> (the paths are normalised, \<open>S0\<close> is not a factor).
\<close>

theorem paths_cumulative_product:
  assumes "1 \<le> self_N self"
  shows "\<exists>m p. moves self None = Some m \<and> paths self = Some p
     \<and> length p = 2 ^ nat (self_N self)
     \<and> (\<forall>j < 2 ^ nat (self_N self).
          length (p ! j) = nat (self_N self) + 1
        \<and> p ! j ! 0 = 1
        \<and> (\<forall>k \<le> nat (self_N self). p ! j ! k = prod_list (map (\<lambda>x. 1 + x) (take k (m ! j)))))"
proof -
  let ?n = "nat (self_N self)"
  let ?m = "product_lists (replicate ?n [self_d self, self_u self])"
  let ?p = "map (cumrow ?n ?n) ?m"
  have "length ?p = 2 ^ ?n" by (simp add: length_moves)
  moreover have "\<forall>j < 2 ^ ?n. length (?p ! j) = ?n + 1 \<and> ?p ! j ! 0 = 1
        \<and> (\<forall>k \<le> ?n. ?p ! j ! k = prod_list (map (\<lambda>x. 1 + x) (take k (?m ! j))))"
    by (simp add: length_moves cumrow_def del: upt_Suc)
  ultimately show ?thesis using paths_closed_form [OF assms] by blast
qed

theorem paths_cumulative_product_witness:
  "1 \<le> self_N crr_example \<and> (\<exists>m p. moves crr_example None = Some m \<and> paths crr_example = Some p
     \<and> length p = 2 \<and> length (p ! 1) = 2 \<and> p ! 1 ! 0 = 1
     \<and> p ! 1 ! 1 = prod_list (map (\<lambda>x. 1 + x) (take 1 (m ! 1))))"
proof -
  have N: "1 \<le> self_N crr_example" "nat (self_N crr_example) = 1" by (simp_all add: crr_example_def)
  from paths_cumulative_product [OF N(1)] obtain m p where
    mp: "moves crr_example None = Some m" "paths crr_example = Some p" "length p = 2 ^ 1"
     "\<forall>j < 2 ^ 1. length (p ! j) = 1 + 1 \<and> p ! j ! 0 = 1
        \<and> (\<forall>k \<le> 1. p ! j ! k = prod_list (map (\<lambda>x. 1 + x) (take k (m ! j))))"
    unfolding N(2) by auto
  from mp(4) [rule_format, of 1] have "length (p ! 1) = 2" "p ! 1 ! 0 = 1"
     "p ! 1 ! 1 = prod_list (map (\<lambda>x. 1 + x) (take 1 (m ! 1)))" by auto
  with mp(1,2,3) N(1) show ?thesis by auto
qed

text \<open>
  Claim C3 as stated fails for \<open>S0 = 100\<close>: the first column of \<open>paths()\<close> is \<open>1\<close>,
  not \<open>S0\<close>.
\<close>

theorem paths_S0_counterexample:
  "CoxRossRubinsteinModel_init 100 0 (- (1/20)) (1/10) 1 1 = Inr crr_example
   \<and> paths crr_example = Some [[1, 19/20], [1, 11/10]]
   \<and> [[1, 19/20], [1, 11/10]] ! 0 ! 0 \<noteq> self_S0 crr_example"
  by (simp add: crr_example_init crr_example_paths) (simp add: crr_example_def)

text \<open>
  Claim C9. For a model built by the constructor with \<open>N \<ge> 1\<close>, every row of
  \<open>paths()\<close> ends on a node of the lattice: the last entry of row \<open>j\<close> is
  \<open>gridPoints[N][i]\<close>, where \<open>i \<le> N\<close> is the number of up-moves in row \<open>j\<close> of
  \<open>moves()\<close>.
\<close>

theorem paths_end_on_lattice:
  assumes "1 \<le> N" and "CoxRossRubinsteinModel_init S0 r d u T N = Inr self"
  shows "\<exists>m p. moves self None = Some m \<and> paths self = Some p \<and> length p = 2 ^ nat N
     \<and> (\<forall>j < 2 ^ nat N. \<exists>i \<le> nat N.
           i = length (filter (\<lambda>x. x = u) (m ! j))
         \<and> last (p ! j) = self_gridPoints self ! nat N ! i)"
proof -
  let ?n = "nat N"
  let ?m = "product_lists (replicate ?n [d, u])"
  let ?p = "map (cumrow ?n ?n) ?m"
  from init_ok [of N S0 r d u T] assms obtain ts where
    self: "self = \<lparr> self_S0 = S0, self_r = r, self_d = d, self_u = u, self_T = T, self_N = N,
                self_times = ts,
                self_gridPoints =
                  [1] # map (\<lambda>k. map (\<lambda>i. (1 + d) ^ nat (k - i) * (1 + u) ^ nat i) [0..k])
                            [1..N] \<rparr>"
    by auto
  have N: "self_N self = N" "self_d self = d" "self_u self = u" by (simp_all add: self)
  have grid: "self_gridPoints self ! ?n = map (\<lambda>i. (1 + d) ^ nat (N - i) * (1 + u) ^ nat i) [0..N]"
    using gridPoints_row [of N N d u] assms(1) by (simp add: self)
  have mp: "moves self None = Some ?m" "paths self = Some ?p"
    using paths_closed_form [of self] assms(1) by (simp_all add: N)
  have len: "length ?p = 2 ^ ?n" by (simp add: length_moves)
  have "\<exists>i \<le> ?n. i = length (filter (\<lambda>x. x = u) (?m ! j))
         \<and> last (?p ! j) = self_gridPoints self ! ?n ! i" if j: "j < 2 ^ ?n" for j
  proof -
    let ?row = "?m ! j"
    let ?i = "length (filter (\<lambda>x. x = u) ?row)"
    have "?row \<in> set ?m" using j by (simp add: length_moves)
    then have row: "length ?row = ?n" "set ?row \<subseteq> {d, u}" by (simp_all add: rows_of_moves)
    have i: "?i \<le> ?n" using row(1) length_filter_le [of _ ?row] by metis
    have "last (?p ! j) = cumrow ?n ?n ?row ! ?n"
      using j by (simp add: length_moves cumrow_def last_conv_nth del: upt_Suc)
    also have "\<dots> = prod_list (map (\<lambda>x. 1 + x) ?row)"
      using row(1) by (simp add: cumrow_def del: upt_Suc)
    also have "\<dots> = (1 + d) ^ (?n - ?i) * (1 + u) ^ ?i"
      using terminal_product [OF row(2)] row(1) by simp
    also have "\<dots> = self_gridPoints self ! ?n ! ?i"
    proof -
      have "int ?i \<le> N" using i assms(1) by linarith
      then have "[0..N] ! ?i = int ?i" "?i < length [0..N]" using assms(1) by auto
      moreover have "nat (N - int ?i) = ?n - ?i" using assms(1) by linarith
      ultimately show ?thesis by (simp add: grid)
    qed
    finally show ?thesis using i by blast
  qed
  with mp len show ?thesis by blast
qed

theorem paths_end_on_lattice_witness:
  "(1::int) \<le> 1 \<and> CoxRossRubinsteinModel_init 100 0 (- (1/20)) (1/10) 1 1 = Inr crr_example
   \<and> (\<exists>m p. moves crr_example None = Some m \<and> paths crr_example = Some p \<and> length p = 2
     \<and> (\<exists>i \<le> 1. i = length (filter (\<lambda>x. x = 1/10) (m ! 1))
         \<and> last (p ! 1) = self_gridPoints crr_example ! 1 ! i))"
proof -
  from paths_end_on_lattice [OF _ crr_example_init] obtain m p where
    mp: "moves crr_example None = Some m" "paths crr_example = Some p" "length p = 2 ^ nat 1"
      "\<forall>j < 2 ^ nat 1. \<exists>i \<le> nat 1.
           i = length (filter (\<lambda>x. x = 1/10) (m ! j))
         \<and> last (p ! j) = self_gridPoints crr_example ! nat 1 ! i"
    by auto
  from mp(4) [rule_format, of 1] mp(1,2,3) crr_example_init show ?thesis by auto
qed

section \<open>Properties of the Black-Scholes analytics\<close>

subsection \<open>The normal distribution function\<close>

lemma summable_cdf_series: "summable (\<lambda>k. cdf_coeff k * t ^ k)"
proof (rule summable_comparison_test' [where N = 0])
  show "summable (\<lambda>k. inverse (fact k) * (\<bar>t\<bar> / 2) ^ k)"
    by (rule summable_exp)
next
  fix k :: nat
  have "norm (cdf_coeff k * t ^ k) = (\<bar>t\<bar> / 2) ^ k / (fact k * (2 * real k + 1))"
    by (simp add: cdf_coeff_def norm_mult norm_divide norm_power power_divide abs_mult power_abs)
  also have "\<dots> \<le> (\<bar>t\<bar> / 2) ^ k / (fact k * 1)"
    by (intro divide_left_mono mult_left_mono) (auto simp: fact_gt_zero)
  finally show "norm (cdf_coeff k * t ^ k) \<le> inverse (fact k) * (\<bar>t\<bar> / 2) ^ k"
    by (simp add: field_simps)
qed

lemma cdf_series_deriv:
  "((\<lambda>t. \<Sum>k. cdf_coeff k * t ^ k) has_real_derivative (\<Sum>k. diffs cdf_coeff k * t ^ k)) (at t)"
  by (rule termdiffs_strong_converges_everywhere) (rule summable_cdf_series)

lemma cdf_series_ode:
  "(\<Sum>k. cdf_coeff k * t ^ k) + 2 * t * (\<Sum>k. diffs cdf_coeff k * t ^ k) = exp (- t / 2)"
proof -
  have s1: "(\<lambda>k. cdf_coeff k * t ^ k) sums (\<Sum>k. cdf_coeff k * t ^ k)"
    using summable_cdf_series by (rule summable_sums)
  have "summable (\<lambda>k. diffs cdf_coeff k * t ^ k)"
    using termdiff_converges_all [of cdf_coeff t] summable_cdf_series by blast
  then have "(\<lambda>k. of_nat k * cdf_coeff k * t ^ (k - Suc 0)) sums (\<Sum>k. diffs cdf_coeff k * t ^ k)"
    by (rule diffs_equiv)
  then have "(\<lambda>k. (2 * t) * (of_nat k * cdf_coeff k * t ^ (k - Suc 0))) sums
               ((2 * t) * (\<Sum>k. diffs cdf_coeff k * t ^ k))"
    by (rule sums_mult)
  with s1 have "(\<lambda>k. cdf_coeff k * t ^ k + (2 * t) * (of_nat k * cdf_coeff k * t ^ (k - Suc 0))) sums
      ((\<Sum>k. cdf_coeff k * t ^ k) + 2 * t * (\<Sum>k. diffs cdf_coeff k * t ^ k))"
    by (rule sums_add)
  moreover have "cdf_coeff k * t ^ k + (2 * t) * (of_nat k * cdf_coeff k * t ^ (k - Suc 0))
      = (- t / 2) ^ k /\<^sub>R fact k" for k
  proof (cases k)
    case 0
    then show ?thesis by (simp add: cdf_coeff_def)
  next
    case (Suc j)
    have pos: "2 * real k + 1 > 0" by (simp add: add_nonneg_pos)
    have "cdf_coeff k * t ^ k + (2 * t) * (of_nat k * cdf_coeff k * t ^ (k - Suc 0))
        = ((2 * real k + 1) * cdf_coeff k) * t ^ k"
      using Suc by (simp add: algebra_simps)
    also have "(2 * real k + 1) * cdf_coeff k = (- 1 / 2) ^ k / fact k"
      using pos unfolding cdf_coeff_def by simp
    also have "(- 1 / 2) ^ k / fact k * t ^ k = (- t / 2) ^ k /\<^sub>R fact k"
    proof -
      have "- t / 2 = (- 1 / 2) * t" by simp
      then have "(- t / 2) ^ k = (- 1 / 2) ^ k * t ^ k"
        by (simp only: power_mult_distrib)
      then show ?thesis by (simp only: real_scaleR_def) (simp add: field_simps)
    qed
    finally show ?thesis .
  qed
  ultimately have "(\<lambda>k. (- t / 2) ^ k /\<^sub>R fact k) sums
      ((\<Sum>k. cdf_coeff k * t ^ k) + 2 * t * (\<Sum>k. diffs cdf_coeff k * t ^ k))"
    by simp
  then show ?thesis using exp_converges [of "- t / 2"] by (rule sums_unique2)
qed

lemma norm_cdf_deriv: "(norm_cdf has_real_derivative norm_pdf x) (at x)"
proof -
  define G where "G = (\<lambda>t::real. \<Sum>k. cdf_coeff k * t ^ k)"
  define G' where "G' = (\<lambda>t::real. \<Sum>k. diffs cdf_coeff k * t ^ k)"
  have G: "(G has_real_derivative G' t) (at t)" for t
    unfolding G_def G'_def by (rule cdf_series_deriv)
  have sq: "((\<lambda>x::real. x\<^sup>2) has_real_derivative 2 * x) (at x)"
    by (auto intro!: derivative_eq_intros)
  have "((\<lambda>x. G (x\<^sup>2)) has_real_derivative G' (x\<^sup>2) * (2 * x)) (at x)"
    by (rule DERIV_chain2 [OF G sq])
  then have "((\<lambda>x. x * G (x\<^sup>2)) has_real_derivative
                1 * G (x\<^sup>2) + (G' (x\<^sup>2) * (2 * x)) * x) (at x)"
    by (rule DERIV_mult [OF DERIV_ident])
  then have "((\<lambda>x. x * G (x\<^sup>2) / sqrt (2 * pi)) has_real_derivative
                (1 * G (x\<^sup>2) + (G' (x\<^sup>2) * (2 * x)) * x) / sqrt (2 * pi)) (at x)"
    by (rule DERIV_cdivide)
  then have "((\<lambda>x. 1 / 2 + x * G (x\<^sup>2) / sqrt (2 * pi)) has_real_derivative
                0 + (1 * G (x\<^sup>2) + (G' (x\<^sup>2) * (2 * x)) * x) / sqrt (2 * pi)) (at x)"
    by (rule DERIV_add [OF DERIV_const])
  moreover have "1 * G (x\<^sup>2) + (G' (x\<^sup>2) * (2 * x)) * x = G (x\<^sup>2) + 2 * x\<^sup>2 * G' (x\<^sup>2)"
    by (simp add: power2_eq_square)
  moreover have "G (x\<^sup>2) + 2 * x\<^sup>2 * G' (x\<^sup>2) = exp (- (x\<^sup>2) / 2)"
    unfolding G_def G'_def by (rule cdf_series_ode)
  moreover have "norm_cdf = (\<lambda>x. 1 / 2 + x * G (x\<^sup>2) / sqrt (2 * pi))"
    unfolding G_def by (rule ext) (simp add: norm_cdf_def)
  ultimately show ?thesis by (simp add: norm_pdf_def)
qed

lemma norm_cdf_0: "norm_cdf 0 = 1 / 2"
  by (simp add: norm_cdf_def)

lemma norm_cdf_symmetric: "norm_cdf x + norm_cdf (- x) = 1"
  by (simp add: norm_cdf_def)

lemma norm_pdf_pos: "0 < norm_pdf x"
  by (simp add: norm_pdf_def)

lemma norm_pdf_even: "norm_pdf (- x) = norm_pdf x"
  by (simp add: norm_pdf_def)


lemma norm_cdf_continuous: "continuous_on A norm_cdf"
  by (meson DERIV_isCont norm_cdf_deriv continuous_at_imp_continuous_on)

subsection \<open>The zero-variance branch\<close>

lemma Black_intrinsic:
  "nu < 1 / 10 ^ 12 \<Longrightarrow> Black F K nu phi = max (phi * (F - K)) 0"
  by (simp add: Black_def)

lemma price_zero_vol:
  "BlackScholesPrice S K r 0 T phi = exp (- r * T) * max (phi * (S * exp (r * T) - K)) 0"
  by (simp add: BlackScholesPrice_def Black_def exp_minus field_simps)

text \<open>
  Claim C5. For every forward \<open>F\<close>, strike \<open>K\<close>, side \<open>phi\<close> and every total standard
  deviation \<open>nu < 1e-12\<close> (zero and negative values included), \<open>Black\<close> returns the
  intrinsic value \<open>max (phi * (F - K)) 0\<close>: the branch is taken before \<open>BlackOverK\<close>,
  the only place that divides by \<open>nu\<close>, is called. Consequently the price at zero
  volatility is the discounted intrinsic value
  \<open>exp (- r T) * max (phi * (S * exp (r T) - K)) 0\<close>.
\<close>

theorem Black_zero_variance:
  assumes "nu < 1 / 10 ^ 12"
  shows "Black F K nu phi = max (phi * (F - K)) 0
       \<and> BlackScholesPrice S K r 0 T phi = exp (- r * T) * max (phi * (S * exp (r * T) - K)) 0"
  using assms by (simp add: Black_intrinsic price_zero_vol)

theorem Black_zero_variance_witness:
  "(0::real) < 1 / 10 ^ 12
   \<and> Black 2 1 0 1 = max (1 * (2 - 1)) 0
   \<and> BlackScholesPrice 2 1 0 0 1 1 = exp (- 0 * 1) * max (1 * (2 * exp (0 * 1) - 1)) 0"
  using Black_zero_variance [where nu = 0 and F = 2 and K = 1 and phi = 1 and S = 2 and r = 0 and T = 1]
  by simp


subsection \<open>Put-call parity\<close>

lemma Black_parity:
  assumes "K \<noteq> 0"
  shows "Black F K nu 1 - Black F K nu (- 1) = F - K"
proof (cases "nu < 1 / 10 ^ 12")
  case True
  then show ?thesis by (simp add: Black_def max_def)
next
  case False
  define d1 where "d1 = ln (F / K) / nu + nu / 2"
  have "BlackOverK (F / K) nu 1 - BlackOverK (F / K) nu (- 1)
      = F / K * (norm_cdf d1 + norm_cdf (- d1)) - (norm_cdf (d1 - nu) + norm_cdf (- (d1 - nu)))"
    unfolding BlackOverK_def Let_def d1_def [symmetric] by (simp add: algebra_simps)
  also have "\<dots> = F / K - 1" by (simp only: norm_cdf_symmetric mult_1_right)
  finally have "K * (BlackOverK (F / K) nu 1 - BlackOverK (F / K) nu (- 1)) = F - K"
    using assms by (simp add: field_simps)
  then show ?thesis using False by (simp add: Black_def algebra_simps)
qed

text \<open>
  Claim C2. For every spot \<open>S > 0\<close>, strike \<open>K > 0\<close>, rate \<open>r\<close>, volatility
  \<open>sigma \<ge> 0\<close> and maturity \<open>T > 0\<close>, the call price minus the put price is
  \<open>S - K * exp (- r T)\<close>, exactly, over the reals; the proof of \<open>Black_parity\<close> covers
  the zero-variance branch and the regular branch of \<open>Black\<close>.
\<close>

theorem put_call_parity:
  assumes "0 < S" "0 < K" "0 \<le> sigma" "0 < T"
  shows "BlackScholesPrice S K r sigma T 1 - BlackScholesPrice S K r sigma T (- 1)
           = S - K * exp (- r * T)"
proof -
  have "BlackScholesPrice S K r sigma T 1 - BlackScholesPrice S K r sigma T (- 1)
      = exp (- r * T) * (Black (S / exp (- r * T)) K (sigma * sqrt T) 1
                        - Black (S / exp (- r * T)) K (sigma * sqrt T) (- 1))"
    by (simp add: BlackScholesPrice_def Let_def algebra_simps)
  also have "\<dots> = exp (- r * T) * (S / exp (- r * T) - K)"
    using assms(2) by (simp add: Black_parity)
  also have "\<dots> = S - K * exp (- r * T)" by (simp add: algebra_simps)
  finally show ?thesis .
qed

theorem put_call_parity_witness:
  "(0::real) < 1 \<and> (0::real) \<le> 3 / 10 \<and> (0::real) < 7 / 5
   \<and> BlackScholesPrice 1 1 (1 / 20) (3 / 10) (7 / 5) 1
       - BlackScholesPrice 1 1 (1 / 20) (3 / 10) (7 / 5) (- 1)
       = 1 - 1 * exp (- (1 / 20) * (7 / 5))"
  using put_call_parity [where S = 1 and K = 1 and sigma = "3 / 10" and T = "7 / 5" and r = "1 / 20"]
  by simp


subsection \<open>The root finder\<close>

lemma sign_step:
  fixes x y z :: real
  assumes "x * z \<le> 0" "\<not> x * y \<le> 0"
  shows "y * z \<le> 0"
proof -
  from assms(2) have xy: "0 < x * y" by simp
  then have "0 < x \<and> 0 < y \<or> x < 0 \<and> y < 0" by (simp add: zero_less_mult_iff)
  then show ?thesis using assms(1) by (auto simp: mult_le_0_iff)
qed

lemma bisect_bracket:
  assumes "a \<le> b" "f a * f b \<le> 0"
  shows "\<exists>hi. a \<le> bisect n f a b \<and> bisect n f a b \<le> hi \<and> hi \<le> b
           \<and> f (bisect n f a b) * f hi \<le> 0 \<and> hi - bisect n f a b = (b - a) / 2 ^ n"
  using assms
proof (induction n arbitrary: a b)
  case 0
  then show ?case by (intro exI [of _ b]) simp
next
  case (Suc n)
  let ?m = "(a + b) / 2"
  have m: "a \<le> ?m" "?m \<le> b" using Suc.prems(1) by simp_all
  show ?case
  proof (cases "f a * f ?m \<le> 0")
    case True
    from Suc.IH [OF m(1) True] obtain hi where
      "a \<le> bisect n f a ?m" "bisect n f a ?m \<le> hi" "hi \<le> ?m"
      "f (bisect n f a ?m) * f hi \<le> 0" "hi - bisect n f a ?m = (?m - a) / 2 ^ n"
      by blast
    moreover have "(?m - a) / 2 ^ n = (b - a) / 2 ^ Suc n" by (simp add: field_simps)
    ultimately show ?thesis using True m by (intro exI [of _ hi]) (simp add: Let_def)
  next
    case False
    have "f ?m * f b \<le> 0" using Suc.prems(2) False by (rule sign_step)
    from Suc.IH [OF m(2) this] obtain hi where
      "?m \<le> bisect n f ?m b" "bisect n f ?m b \<le> hi" "hi \<le> b"
      "f (bisect n f ?m b) * f hi \<le> 0" "hi - bisect n f ?m b = (b - ?m) / 2 ^ n"
      by blast
    moreover have "(b - ?m) / 2 ^ n = (b - a) / 2 ^ Suc n" by (simp add: field_simps)
    ultimately show ?thesis using False m by (intro exI [of _ hi]) (simp add: Let_def)
  qed
qed

lemma root_between:
  fixes f :: "real \<Rightarrow> real"
  assumes "lo \<le> hi" "f lo * f hi \<le> 0" "continuous_on {lo..hi} f"
  shows "\<exists>x. lo \<le> x \<and> x \<le> hi \<and> f x = 0"
proof -
  from assms(2) have "f lo \<le> 0 \<and> 0 \<le> f hi \<or> f hi \<le> 0 \<and> 0 \<le> f lo"
    by (auto simp: mult_le_0_iff)
  then show ?thesis
  proof
    assume "f lo \<le> 0 \<and> 0 \<le> f hi"
    then show ?thesis using IVT' [of f lo 0 hi] assms(1,3) by blast
  next
    assume "f hi \<le> 0 \<and> 0 \<le> f lo"
    then show ?thesis using IVT2' [of f hi 0 lo] assms(1,3) by blast
  qed
qed

lemma bisect_width:
  fixes a b xtol :: real
  assumes "a < b" "0 < xtol"
  shows "(b - a) / 2 ^ nat \<lceil>(b - a) / xtol\<rceil> \<le> xtol"
proof -
  let ?n = "nat \<lceil>(b - a) / xtol\<rceil>"
  have "(b - a) / xtol \<le> real ?n" by linarith
  also have "\<dots> < 2 ^ ?n" by (rule of_nat_less_two_power)
  finally have "(b - a) / xtol \<le> 2 ^ ?n" by simp
  then have "b - a \<le> xtol * 2 ^ ?n" using assms(2) by (simp add: field_simps)
  then show ?thesis by (simp add: field_simps)
qed

lemma brentq_rtol_nonneg: "0 \<le> brentq_rtol"
  by (simp add: brentq_rtol_def)

lemma brentq_bisect_contract: "brentq_contract brentq_bisect"
  unfolding brentq_contract_def
proof (intro allI impI conjI)
  fix f :: "real \<Rightarrow> real" and a b xtol :: real
  assume "a < b \<and> 0 < xtol" "0 < f a * f b"
  then show "brentq_bisect f a b xtol = Inl NoRootInBracket" by (simp add: brentq_bisect_def)
next
  fix f :: "real \<Rightarrow> real" and a b xtol :: real
  assume ab: "a < b \<and> 0 < xtol" and sign: "f a * f b \<le> 0"
  let ?n = "nat \<lceil>(b - a) / xtol\<rceil>"
  let ?x0 = "bisect ?n f a b"
  from bisect_bracket [of a b f ?n] ab sign obtain hi where
    hi: "a \<le> ?x0" "?x0 \<le> hi" "hi \<le> b" "f ?x0 * f hi \<le> 0" "hi - ?x0 = (b - a) / 2 ^ ?n"
    by auto
  have w: "hi - ?x0 \<le> xtol" using bisect_width [of a b xtol] ab hi(5) by simp
  have "\<exists>x. a \<le> x \<and> x \<le> b \<and> f x = 0 \<and> \<bar>x - ?x0\<bar> \<le> xtol + brentq_rtol * \<bar>?x0\<bar>"
    if cont: "continuous_on {a..b} f"
  proof -
    have "continuous_on {?x0..hi} f"
      using cont by (rule continuous_on_subset) (use hi in auto)
    from root_between [OF hi(2) hi(4) this] obtain x where
      x: "?x0 \<le> x" "x \<le> hi" "f x = 0" by blast
    have "\<bar>x - ?x0\<bar> \<le> xtol" using x w by simp
    moreover have "0 \<le> brentq_rtol * \<bar>?x0\<bar>" using brentq_rtol_nonneg by simp
    ultimately have "\<bar>x - ?x0\<bar> \<le> xtol + brentq_rtol * \<bar>?x0\<bar>" by linarith
    then show ?thesis using x hi by (intro exI [of _ x]) simp
  qed
  then show "\<exists>x0. brentq_bisect f a b xtol = Inr x0 \<and> a \<le> x0 \<and> x0 \<le> b \<and>
                 (continuous_on {a..b} f \<longrightarrow>
                    (\<exists>x. a \<le> x \<and> x \<le> b \<and> f x = 0 \<and>
                         \<bar>x - x0\<bar> \<le> xtol + brentq_rtol * \<bar>x0\<bar>))"
    using sign hi by (intro exI [of _ ?x0]) (simp add: brentq_bisect_def)
qed

lemma bracket_ok: "0 < T \<Longrightarrow> 1 / 100 * sqrt T < 1 * sqrt T"
  by simp

lemma implied_vol_cases:
  fixes price strike forward T callOrPut :: real
  assumes c: "brentq_contract brentq" and T: "0 < T"
  defines "f \<equiv> (\<lambda>nu. Black forward strike nu callOrPut - price)"
  defines "a \<equiv> 1 / 100 * sqrt T" and "b \<equiv> 1 * sqrt T"
  shows "0 < f a * f b \<Longrightarrow>
           BlackImpliedVol brentq price strike forward T callOrPut = Inl NoRootInBracket"
    and "f a * f b \<le> 0 \<Longrightarrow>
           \<exists>x0. BlackImpliedVol brentq price strike forward T callOrPut = Inr (x0 / sqrt T)
              \<and> a \<le> x0 \<and> x0 \<le> b
              \<and> (continuous_on {a..b} f \<longrightarrow>
                    (\<exists>x. a \<le> x \<and> x \<le> b \<and> f x = 0 \<and>
                         \<bar>x - x0\<bar> \<le> 1 / 10 ^ 8 + brentq_rtol * \<bar>x0\<bar>))"
proof -
  have ab: "a < b \<and> (0::real) < 1 / 10 ^ 8" using T by (simp add: a_def b_def)
  note spec = c [unfolded brentq_contract_def, rule_format, OF ab, of f]
  show "BlackImpliedVol brentq price strike forward T callOrPut = Inl NoRootInBracket"
    if "0 < f a * f b"
    using spec [THEN conjunct1, rule_format, OF that]
    by (simp add: BlackImpliedVol_def f_def a_def b_def)
  show "\<exists>x0. BlackImpliedVol brentq price strike forward T callOrPut = Inr (x0 / sqrt T)
              \<and> a \<le> x0 \<and> x0 \<le> b
              \<and> (continuous_on {a..b} f \<longrightarrow>
                    (\<exists>x. a \<le> x \<and> x \<le> b \<and> f x = 0 \<and>
                         \<bar>x - x0\<bar> \<le> 1 / 10 ^ 8 + brentq_rtol * \<bar>x0\<bar>))"
    if "f a * f b \<le> 0"
  proof -
    from spec [THEN conjunct2, rule_format, OF that] obtain x0 where
      x0: "brentq f a b (1 / 10 ^ 8) = Inr x0" "a \<le> x0" "x0 \<le> b"
        "continuous_on {a..b} f \<longrightarrow>
                    (\<exists>x. a \<le> x \<and> x \<le> b \<and> f x = 0 \<and>
                         \<bar>x - x0\<bar> \<le> 1 / 10 ^ 8 + brentq_rtol * \<bar>x0\<bar>)"
      by blast
    have "BlackImpliedVol brentq price strike forward T callOrPut = Inr (x0 / sqrt T)"
      using x0(1) by (simp add: BlackImpliedVol_def f_def a_def b_def)
    then show ?thesis using x0 by blast
  qed
qed

text \<open>
  Without rounding, a returned value lies in \<open>[0.01, 1.00]\<close>: the root is taken from the
  bracket \<open>[0.01 * sqrt T, 1.00 * sqrt T]\<close> and divided by \<open>sqrt T\<close>.
\<close>

lemma implied_vol_real_in_bracket:
  assumes "brentq_contract brentq" and "0 < T"
    and "BlackImpliedVol brentq price strike forward T callOrPut = Inr sigma"
  shows "1 / 100 \<le> sigma \<and> sigma \<le> 1"
proof -
  let ?f = "\<lambda>nu. Black forward strike nu callOrPut - price"
  let ?a = "1 / 100 * sqrt T" and ?b = "1 * sqrt T"
  have "\<not> 0 < ?f ?a * ?f ?b"
    using implied_vol_cases(1) [OF assms(1,2), of forward strike callOrPut price] assms(3) by auto
  then have "?f ?a * ?f ?b \<le> 0" by simp
  from implied_vol_cases(2) [OF assms(1,2) this] assms(3) obtain x0 where
    x0: "sigma = x0 / sqrt T" "?a \<le> x0" "x0 \<le> ?b" by auto
  have s: "0 < sqrt T" using assms(2) by simp
  from x0(2) s have "1 / 100 \<le> x0 / sqrt T" by (simp add: field_simps)
  moreover from x0(3) s have "x0 / sqrt T \<le> 1" by (simp add: field_simps)
  ultimately show ?thesis using x0(1) by simp
qed


subsection \<open>The derivative of the Black formula in the total standard deviation\<close>

lemma norm_cdf_deriv_chain:
  assumes "(g has_real_derivative g') (at x)"
  shows "((\<lambda>x. norm_cdf (g x)) has_real_derivative norm_pdf (g x) * g') (at x)"
  by (rule DERIV_chain2 [OF norm_cdf_deriv assms])

lemma norm_pdf_side: "phi = 1 \<or> phi = - 1 \<Longrightarrow> norm_pdf (phi * x) = norm_pdf x"
  by (auto simp: norm_pdf_def)

lemma pdf_identity:
  assumes "0 < m" "nu \<noteq> 0"
  shows "m * norm_pdf (ln m / nu + nu / 2) = norm_pdf (ln m / nu + nu / 2 - nu)"
proof -
  define d1 where "d1 = ln m / nu + nu / 2"
  have e: "d1 * nu = ln m + nu\<^sup>2 / 2"
    using assms(2) by (simp add: d1_def power2_eq_square field_simps)
  have "(d1 - nu)\<^sup>2 = d1\<^sup>2 - 2 * (d1 * nu) + nu\<^sup>2"
    by (simp add: power2_diff)
  also have "\<dots> = d1\<^sup>2 - 2 * (ln m + nu\<^sup>2 / 2) + nu\<^sup>2"
    by (simp only: e)
  finally have "- ((d1 - nu)\<^sup>2) / 2 = - (d1\<^sup>2) / 2 + ln m"
    by (simp add: field_simps)
  then have "exp (- ((d1 - nu)\<^sup>2) / 2) = exp (- (d1\<^sup>2) / 2) * exp (ln m)"
    by (simp only: exp_add)
  then have "exp (- ((d1 - nu)\<^sup>2) / 2) = exp (- (d1\<^sup>2) / 2) * m"
    using assms(1) by simp
  then show ?thesis
    unfolding d1_def [symmetric] norm_pdf_def by (simp add: field_simps)
qed

lemma price_shape_deriv:
  fixes E m d1 d2 :: "real \<Rightarrow> real"
  assumes E: "(E has_real_derivative E') (at t)"
      and m: "(m has_real_derivative M') (at t)"
      and d1: "(d1 has_real_derivative D1) (at t)"
      and d2: "(d2 has_real_derivative D2) (at t)"
  shows "((\<lambda>t. E t * (K * (phi * (m t * norm_cdf (phi * d1 t) - norm_cdf (phi * d2 t)))))
           has_real_derivative
          E' * (K * (phi * (m t * norm_cdf (phi * d1 t) - norm_cdf (phi * d2 t))))
        + (K * (phi * (M' * norm_cdf (phi * d1 t) + (norm_pdf (phi * d1 t) * (phi * D1)) * m t
                       - norm_pdf (phi * d2 t) * (phi * D2)))) * E t) (at t)"
proof -
  have c1: "((\<lambda>t. norm_cdf (phi * d1 t)) has_real_derivative
              norm_pdf (phi * d1 t) * (phi * D1)) (at t)"
    by (intro norm_cdf_deriv_chain DERIV_cmult d1)
  have c2: "((\<lambda>t. norm_cdf (phi * d2 t)) has_real_derivative
              norm_pdf (phi * d2 t) * (phi * D2)) (at t)"
    by (intro norm_cdf_deriv_chain DERIV_cmult d2)
  have A: "((\<lambda>t. m t * norm_cdf (phi * d1 t) - norm_cdf (phi * d2 t)) has_real_derivative
              M' * norm_cdf (phi * d1 t) + (norm_pdf (phi * d1 t) * (phi * D1)) * m t
                       - norm_pdf (phi * d2 t) * (phi * D2)) (at t)"
    by (intro DERIV_diff DERIV_mult m c1 c2)
  have B: "((\<lambda>t. K * (phi * (m t * norm_cdf (phi * d1 t) - norm_cdf (phi * d2 t))))
              has_real_derivative
              K * (phi * (M' * norm_cdf (phi * d1 t) + (norm_pdf (phi * d1 t) * (phi * D1)) * m t
                       - norm_pdf (phi * d2 t) * (phi * D2)))) (at t)"
    by (intro DERIV_cmult A)
  show ?thesis by (intro DERIV_mult E B)
qed

lemma d1_deriv_nu:
  assumes "nu \<noteq> 0"
  shows "((\<lambda>nu. L / nu + nu / 2) has_real_derivative (- L / (nu * nu) + 1 / 2)) (at nu)"
  using assms by (auto intro!: derivative_eq_intros simp: field_simps)

lemma BlackOverK_deriv_nu:
  assumes m: "0 < m" and nu: "0 < nu" and phi: "phi = 1 \<or> phi = - 1"
  shows "((\<lambda>nu. BlackOverK m nu phi) has_real_derivative
            norm_pdf (ln m / nu + nu / 2 - nu)) (at nu)"
proof -
  define D1 where "D1 = - ln m / (nu * nu) + 1 / 2"
  define p2 where "p2 = norm_pdf (ln m / nu + nu / 2 - nu)"
  have nu0: "nu \<noteq> 0" using nu by simp
  have d1: "((\<lambda>nu. ln m / nu + nu / 2) has_real_derivative D1) (at nu)"
    unfolding D1_def by (rule d1_deriv_nu [OF nu0])
  have d2: "((\<lambda>nu. ln m / nu + nu / 2 - nu) has_real_derivative D1 - 1) (at nu)"
    by (intro DERIV_diff d1 DERIV_ident)
  have p1: "m * norm_pdf (phi * (ln m / nu + nu / 2)) = p2"
    unfolding p2_def using pdf_identity [OF m nu0] norm_pdf_side [OF phi] by simp
  have p2': "norm_pdf (phi * (ln m / nu + nu / 2 - nu)) = p2"
    unfolding p2_def using norm_pdf_side [OF phi] by simp
  have phi2: "phi * phi = 1" using phi by auto
  have c1: "((\<lambda>nu::real. 1::real) has_real_derivative 0) (at nu)" by (rule DERIV_const)
  have cm: "((\<lambda>nu::real. m) has_real_derivative 0) (at nu)" by (rule DERIV_const)
  let ?F = "\<lambda>nu. phi * (m * norm_cdf (phi * (ln m / nu + nu / 2))
                      - norm_cdf (phi * (ln m / nu + nu / 2 - nu)))"
  let ?X = "phi * ((norm_pdf (phi * (ln m / nu + nu / 2)) * (phi * D1)) * m
                  - norm_pdf (phi * (ln m / nu + nu / 2 - nu)) * (phi * (D1 - 1)))"
  have step: "(?F has_real_derivative ?X) (at nu)"
    using price_shape_deriv [OF c1 cm d1 d2, where K = 1 and phi = phi] by simp
  have "?X = (phi * phi) * ((m * norm_pdf (phi * (ln m / nu + nu / 2))) * D1
                  - norm_pdf (phi * (ln m / nu + nu / 2 - nu)) * (D1 - 1))"
    by (simp only: algebra_simps)
  also have "\<dots> = p2" unfolding p1 p2' phi2 by (simp only: algebra_simps)
  finally have X: "?X = p2" .
  have fn: "(\<lambda>nu. BlackOverK m nu phi) = ?F"
    by (simp add: BlackOverK_def Let_def)
  from step have "(?F has_real_derivative p2) (at nu)" by (simp only: X)
  then show ?thesis unfolding fn p2_def .
qed

lemma Black_regular:
  "1 / 10 ^ 12 \<le> nu \<Longrightarrow> Black F K nu phi = K * BlackOverK (F / K) nu phi"
  by (simp add: Black_def)

lemma Black_regular_deriv:
  assumes "0 < F" "0 < K" "0 < nu" "phi = 1 \<or> phi = - 1"
  shows "((\<lambda>nu. K * BlackOverK (F / K) nu phi) has_real_derivative
            K * norm_pdf (ln (F / K) / nu + nu / 2 - nu)) (at nu)"
    and "0 < K * norm_pdf (ln (F / K) / nu + nu / 2 - nu)"
proof -
  have m: "0 < F / K" using assms(1,2) by simp
  show "((\<lambda>nu. K * BlackOverK (F / K) nu phi) has_real_derivative
            K * norm_pdf (ln (F / K) / nu + nu / 2 - nu)) (at nu)"
    by (intro DERIV_cmult BlackOverK_deriv_nu m assms)
  show "0 < K * norm_pdf (ln (F / K) / nu + nu / 2 - nu)"
    using assms(2) norm_pdf_pos by simp
qed

lemma Black_strict_mono:
  assumes "0 < F" "0 < K" "phi = 1 \<or> phi = - 1" "1 / 10 ^ 12 \<le> x" "x < y"
  shows "Black F K x phi < Black F K y phi"
proof -
  have "K * BlackOverK (F / K) x phi < K * BlackOverK (F / K) y phi"
  proof (rule DERIV_pos_imp_increasing [OF assms(5)])
    fix nu assume "x \<le> nu" "nu \<le> y"
    moreover have "(0::real) < 1 / 10 ^ 12" by simp
    ultimately have "0 < nu" using assms(4) by linarith
    from Black_regular_deriv [OF assms(1,2) this assms(3)]
    show "\<exists>D. ((\<lambda>nu. K * BlackOverK (F / K) nu phi) has_real_derivative D) (at nu) \<and> 0 < D"
      by blast
  qed
  then show ?thesis using assms(4,5) by (simp add: Black_regular)
qed


lemma Black_inj:
  assumes "0 < F" "0 < K" "phi = 1 \<or> phi = - 1" "1 / 10 ^ 12 \<le> x" "1 / 10 ^ 12 \<le> y"
    and "Black F K x phi = Black F K y phi"
  shows "x = y"
  using Black_strict_mono [OF assms(1-3) assms(4), of y]
        Black_strict_mono [OF assms(1-3) assms(5), of x] assms(6)
  by (cases x y rule: linorder_cases) auto

lemma objective_continuous:
  assumes "0 < F" "0 < K" "phi = 1 \<or> phi = - 1" "1 / 10 ^ 12 \<le> a"
  shows "continuous_on {a..b} (\<lambda>nu. Black F K nu phi - price)"
proof -
  have "continuous_on {a..b} (\<lambda>nu. K * BlackOverK (F / K) nu phi)"
  proof (rule DERIV_atLeastAtMost_imp_continuous_on)
    fix nu assume "a \<le> nu" "nu \<le> b"
    moreover have "(0::real) < 1 / 10 ^ 12" by simp
    ultimately have "0 < nu" using assms(4) by linarith
    from Black_regular_deriv(1) [OF assms(1,2) this assms(3)]
    show "\<exists>D. ((\<lambda>nu. K * BlackOverK (F / K) nu phi) has_real_derivative D) (at nu)"
      by blast
  qed
  then have "continuous_on {a..b} (\<lambda>nu. K * BlackOverK (F / K) nu phi - price)"
    by (rule continuous_on_diff) (rule continuous_on_const)
  moreover have "continuous_on {a..b} (\<lambda>nu. Black F K nu phi - price)
      \<longleftrightarrow> continuous_on {a..b} (\<lambda>nu. K * BlackOverK (F / K) nu phi - price)"
    by (rule continuous_on_cong) (use assms(4) in \<open>simp_all add: Black_regular\<close>)
  ultimately show ?thesis by blast
qed


subsection \<open>Theta\<close>

lemma discount_deriv:
  "((\<lambda>t. exp (- r * t)) has_real_derivative exp (- r * T) * (- r)) (at T)"
  by (auto intro!: derivative_eq_intros)

lemma moneyness_deriv:
  assumes "K \<noteq> 0"
  shows "((\<lambda>t. S / exp (- r * t) / K) has_real_derivative r * (S / exp (- r * T) / K)) (at T)"
proof -
  have "((\<lambda>t. S * exp (r * t) / K) has_real_derivative r * (S * exp (r * T) / K)) (at T)"
    using assms by (auto intro!: derivative_eq_intros)
  moreover have "(\<lambda>t. S / exp (- r * t) / K) = (\<lambda>t. S * exp (r * t) / K)"
    by (rule ext) (simp add: exp_minus field_simps)
  moreover have "S / exp (- r * T) / K = S * exp (r * T) / K"
    by (simp add: exp_minus field_simps)
  ultimately show ?thesis by simp
qed

lemma log_moneyness_deriv:
  assumes "0 < S" "0 < K"
  shows "((\<lambda>t. ln (S / exp (- r * t) / K)) has_real_derivative r) (at T)"
proof -
  have "ln (S / exp (- r * t) / K) = ln S + r * t - ln K" for t
  proof -
    have "S / exp (- r * t) / K = (S * exp (r * t)) / K"
      by (simp add: exp_minus field_simps)
    moreover have "ln ((S * exp (r * t)) / K) = ln (S * exp (r * t)) - ln K"
      using assms by (intro ln_divide_pos) simp_all
    moreover have "ln (S * exp (r * t)) = ln S + ln (exp (r * t))"
      using assms by (intro ln_mult_pos) simp_all
    ultimately show ?thesis by simp
  qed
  then have "(\<lambda>t. ln (S / exp (- r * t) / K)) = (\<lambda>t. ln S + r * t - ln K)"
    by (intro ext)
  moreover have "((\<lambda>t. ln S + r * t - ln K) has_real_derivative r) (at T)"
    by (auto intro!: derivative_eq_intros)
  ultimately show ?thesis by simp
qed

lemma stddev_deriv:
  assumes "0 < T"
  shows "((\<lambda>t. sigma * sqrt t) has_real_derivative sigma / 2 / sqrt T) (at T)"
  using assms by (auto intro!: derivative_eq_intros simp: field_simps)

lemma regular_branch_near:
  assumes "0 < sigma" "0 < T" "1 / 10 ^ 12 < sigma * sqrt T"
  shows "eventually (\<lambda>t. 1 / 10 ^ 12 \<le> sigma * sqrt t) (nhds T)"
proof -
  have "isCont (\<lambda>t. sigma * sqrt t) T" by (intro continuous_intros)
  then have "((\<lambda>t. sigma * sqrt t) \<longlongrightarrow> sigma * sqrt T) (nhds T)"
    using tendsto_at_iff_tendsto_nhds [of "\<lambda>t. sigma * sqrt t" T] by (simp add: isCont_def)
  from order_tendstoD(1) [OF this assms(3)]
  show ?thesis by (rule eventually_mono) simp
qed

lemma theta_algebra:
  fixes e K M r phi P1 P2 q1 q2 D1 N' S p1 :: real
  assumes "phi * phi = 1" "M * q1 = q2" "K * e * M = S"
  shows "e * (- r) * (K * (phi * (M * P1 - P2)))
        + (K * (phi * (r * M * P1 + (q1 * (phi * D1)) * M - q2 * (phi * (D1 - N'))))) * e
       = S * q1 * N' + phi * r * K * e * P2"
proof -
  have "e * (- r) * (K * (phi * (M * P1 - P2)))
        + (K * (phi * (r * M * P1 + (q1 * (phi * D1)) * M - q2 * (phi * (D1 - N'))))) * e
      = (phi * phi) * (K * e * ((M * q1) * D1 - q2 * (D1 - N'))) + phi * r * K * e * P2"
    by (simp add: algebra_simps)
  also have "\<dots> = K * e * (q2 * N') + phi * r * K * e * P2"
    unfolding assms(1,2) by (simp add: algebra_simps)
  also have "K * e * (q2 * N') = (K * e * M) * q1 * N'"
    unfolding assms(2) [symmetric] by (simp add: algebra_simps)
  finally show ?thesis unfolding assms(3) .
qed

lemma price_theta_deriv:
  assumes S: "0 < S" and K: "0 < K" and sigma: "0 < sigma" and T: "0 < T"
    and phi: "phi = 1 \<or> phi = - 1" and reg: "1 / 10 ^ 12 < sigma * sqrt T"
  shows "((\<lambda>t. BlackScholesPrice S K r sigma t phi) has_real_derivative
            BlackScholesTheta S K r sigma T phi) (at T)"
proof -
  define e where "e = exp (- r * T)"
  define M where "M = S / exp (- r * T) / K"
  define N where "N = sigma * sqrt T"
  define N' where "N' = sigma / 2 / sqrt T"
  define D1 where "D1 = (r * N - ln M * N') / (N * N) + N' / 2"
  define d1v where "d1v = ln M / N + N / 2"
  let ?m = "\<lambda>t. S / exp (- r * t) / K"
  let ?nu = "\<lambda>t. sigma * sqrt t"
  let ?d1 = "\<lambda>t. ln (?m t) / ?nu t + ?nu t / 2"
  let ?d2 = "\<lambda>t. ?d1 t - ?nu t"
  let ?R = "\<lambda>t. exp (- r * t) * (K * (phi * (?m t * norm_cdf (phi * ?d1 t) - norm_cdf (phi * ?d2 t))))"
  have Npos: "0 < N" using sigma T by (simp add: N_def)
  have Mpos: "0 < M" using S K by (simp add: M_def)
  have nu: "(?nu has_real_derivative N') (at T)"
    unfolding N'_def by (rule stddev_deriv [OF T])
  have d1: "(?d1 has_real_derivative D1) (at T)"
    unfolding D1_def M_def N_def
    by (intro DERIV_add DERIV_divide DERIV_cdivide log_moneyness_deriv [OF S K] nu)
       (use sigma T in simp)
  have d2: "(?d2 has_real_derivative D1 - N') (at T)"
    by (intro DERIV_diff d1 nu)
  have K0: "K \<noteq> 0" using K by simp
  have step: "(?R has_real_derivative
      e * (- r) * (K * (phi * (M * norm_cdf (phi * d1v) - norm_cdf (phi * (d1v - N)))))
        + (K * (phi * (r * M * norm_cdf (phi * d1v) + (norm_pdf (phi * d1v) * (phi * D1)) * M
                       - norm_pdf (phi * (d1v - N)) * (phi * (D1 - N'))))) * e) (at T)"
    unfolding e_def M_def N_def d1v_def
    by (rule price_shape_deriv [OF discount_deriv moneyness_deriv [OF K0] d1 d2])
  have q: "M * norm_pdf (phi * d1v) = norm_pdf (phi * (d1v - N))"
    unfolding d1v_def using pdf_identity [OF Mpos, of N] Npos norm_pdf_side [OF phi] by simp
  have KeM: "K * e * M = S" using K by (simp add: e_def M_def)
  have phi2: "phi * phi = 1" using phi by auto
  have M': "exp (r * T) * S / K = M" by (simp add: M_def exp_minus field_simps)
  have theta: "BlackScholesTheta S K r sigma T phi
      = S * norm_pdf (phi * d1v) * N' + phi * r * K * e * norm_cdf (phi * (d1v - N))"
    unfolding BlackScholesTheta_def Let_def M' N_def [symmetric] d1v_def [symmetric] e_def
    using norm_pdf_side [OF phi, of d1v] by (simp add: N'_def)
  have R: "(?R has_real_derivative BlackScholesTheta S K r sigma T phi) (at T)"
    using step unfolding theta_algebra [OF phi2 q KeM] theta .
  have ev: "eventually (\<lambda>t. BlackScholesPrice S K r sigma t phi = ?R t) (nhds T)"
    using regular_branch_near [OF sigma T reg]
    by (rule eventually_mono) (simp add: BlackScholesPrice_def Black_regular BlackOverK_def Let_def)
  show ?thesis
    using DERIV_cong_ev [OF refl ev refl] R by blast
qed

text \<open>
  Claim C4, as the code has it. For every \<open>S > 0\<close>, \<open>K > 0\<close>, rate \<open>r\<close>,
  \<open>sigma > 0\<close>, \<open>T > 0\<close> with \<open>sigma * sqrt T > 1e-12\<close> (the regular branch of
  \<open>Black\<close>) and side \<open>phi\<close> in \<open>{+1, -1}\<close>, \<open>BlackScholesTheta\<close> is the partial
  derivative of the price with respect to the time to maturity \<open>T\<close>, with the positive
  sign: \<open>theta = + d(price)/dT\<close>, as the notebook's own formula and its finite-difference
  check have it.
\<close>

theorem theta_is_time_derivative:
  assumes "0 < S" and "0 < K" and "0 < sigma" and "0 < T"
    and "phi = 1 \<or> phi = - 1" and "1 / 10 ^ 12 < sigma * sqrt T"
  shows "((\<lambda>t. BlackScholesPrice S K r sigma t phi) has_real_derivative
            BlackScholesTheta S K r sigma T phi) (at T)"
  using assms by (rule price_theta_deriv)

theorem theta_is_time_derivative_witness:
  "(0::real) < 1 \<and> (1::real) / 10 ^ 12 < 1 * sqrt 1
   \<and> ((\<lambda>t. BlackScholesPrice 1 1 (1 / 20) 1 t 1) has_real_derivative
            BlackScholesTheta 1 1 (1 / 20) 1 1 1) (at 1)"
  using theta_is_time_derivative [where S = 1 and K = 1 and sigma = 1 and T = 1 and phi = 1
          and r = "1 / 20"]
  by simp

text \<open>
  Claim C4 as stated, \<open>theta = - d(price)/dT\<close>, fails at
  \<open>S = K = sigma = T = 1\<close>, \<open>r = 0\<close>, \<open>phi = +1\<close>: there the derivative of the
  price is \<open>theta\<close>, which is positive, so it is not \<open>- theta\<close>.
\<close>

theorem theta_sign_counterexample:
  "\<not> ((\<lambda>t. BlackScholesPrice 1 1 0 1 t 1) has_real_derivative
            - BlackScholesTheta 1 1 0 1 1 1) (at 1)"
proof
  assume neg: "((\<lambda>t. BlackScholesPrice 1 1 0 1 t 1) has_real_derivative
            - BlackScholesTheta 1 1 0 1 1 1) (at 1)"
  have pos: "((\<lambda>t. BlackScholesPrice 1 1 0 1 t 1) has_real_derivative
            BlackScholesTheta 1 1 0 1 1 1) (at 1)"
    by (rule price_theta_deriv) simp_all
  from DERIV_unique [OF neg pos] have "BlackScholesTheta 1 1 0 1 1 1 = 0" by simp
  moreover have "0 < BlackScholesTheta 1 1 0 1 1 1"
    by (simp add: BlackScholesTheta_def norm_pdf_pos)
  ultimately show False by simp
qed


subsection \<open>Implied volatility\<close>

lemma sqrt_tiny: "sqrt (1 / 10 ^ 20) = 1 / 10 ^ 10"
  by (rule real_sqrt_unique) (simp_all add: power2_eq_square)

lemma bracket_regular:
  assumes "1 / 10 ^ 20 \<le> T"
  shows "1 / 10 ^ 12 \<le> 1 / 100 * sqrt T" and "0 < T" and "0 < sqrt T"
proof -
  have "sqrt (1 / 10 ^ 20) \<le> sqrt T" using assms by (rule real_sqrt_le_mono)
  then have "1 / 10 ^ 10 \<le> sqrt T" by (simp only: sqrt_tiny)
  then show "1 / 10 ^ 12 \<le> 1 / 100 * sqrt T" by simp
  have "(0::real) < 1 / 10 ^ 20" by simp
  with assms show "0 < T" by linarith
  then show "0 < sqrt T" by simp
qed








lemma sqrt_tenth: "3 / 10 < sqrt (1 / 10)"
  by (rule real_less_rsqrt) (simp add: power2_eq_square)

text \<open>
  The round trip of pricing and implied volatility, over exact reals. For every root
  finder that meets the contract of \<open>brentq\<close>, every \<open>sigma\<close> in \<open>(0.05, 1.0)\<close>,
  \<open>T\<close> in \<open>(0.1, 2)\<close>, \<open>K > 0\<close>, \<open>F > 0\<close> and side \<open>phi\<close> in \<open>{+1, -1}\<close>: the
  implied volatility of the price at forward \<open>F\<close> (the Black-Scholes price at rate
  \<open>0\<close>) is returned and differs from \<open>sigma\<close> by less than \<open>1e-6\<close>. In doubles the
  statement depends on how \<open>norm.cdf\<close> is evaluated: deep in the money its value is
  rounded to \<open>1\<close>, the price is then the intrinsic value and carries no volatility.
\<close>

lemma implied_vol_round_trip:
  assumes c: "brentq_contract brentq"
    and sigma: "5 / 100 < sigma" "sigma < 1" and T: "1 / 10 < T" "T < 2"
    and K: "0 < K" and F: "0 < F" and phi: "phi = 1 \<or> phi = - 1"
  shows "\<exists>iv. BlackImpliedVol brentq (BlackScholesPrice F K 0 sigma T phi) K F T phi = Inr iv
           \<and> \<bar>iv - sigma\<bar> < 1 / 10 ^ 6"
proof -
  let ?a = "1 / 100 * sqrt T" and ?b = "1 * sqrt T"
  define nu0 where "nu0 = sigma * sqrt T"
  define price where "price = Black F K nu0 phi"
  let ?f = "\<lambda>nu. Black F K nu phi - price"
  have T20: "1 / 10 ^ 20 \<le> T" using T(1) by simp
  note reg = bracket_regular [OF T20]
  have s: "3 / 10 < sqrt T"
    using sqrt_tenth real_sqrt_less_mono [OF T(1)] by linarith
  have pr: "BlackScholesPrice F K 0 sigma T phi = price"
    by (simp add: BlackScholesPrice_def price_def nu0_def)
  have a0: "?a < nu0" and b0: "nu0 < ?b"
    using sigma reg(3) by (simp_all add: nu0_def)
  have nu_reg: "1 / 10 ^ 12 \<le> nu0" using reg(1) a0 by linarith
  have "?f ?a < 0" using Black_strict_mono [OF F K phi reg(1) a0] by (simp add: price_def)
  moreover have "0 < ?f ?b" using Black_strict_mono [OF F K phi nu_reg b0] by (simp add: price_def)
  ultimately have "?f ?a * ?f ?b \<le> 0" by (simp add: mult_le_0_iff)
  from implied_vol_cases(2) [OF c reg(2), of F K phi price, OF this]
       objective_continuous [OF F K phi reg(1), of ?b price]
  obtain x0 x where
    x: "BlackImpliedVol brentq price K F T phi = Inr (x0 / sqrt T)" "?a \<le> x0" "x0 \<le> ?b"
       "?a \<le> x" "x \<le> ?b" "?f x = 0" "\<bar>x - x0\<bar> \<le> 1 / 10 ^ 8 + brentq_rtol * \<bar>x0\<bar>"
    by blast
  have "1 / 10 ^ 12 \<le> x" using reg(1) x(4) by linarith
  moreover have "Black F K x phi = Black F K nu0 phi" using x(6) by (simp add: price_def)
  ultimately have "x = nu0" using Black_inj [OF F K phi _ nu_reg] by blast
  have "0 \<le> ?a" using reg(3) by simp
  then have x0pos: "0 \<le> x0" using x(2) by linarith
  have "x0 / sqrt T - sigma = (x0 - nu0) / sqrt T"
    using reg(3) by (simp add: nu0_def field_simps)
  then have "\<bar>x0 / sqrt T - sigma\<bar> = \<bar>x0 - nu0\<bar> / \<bar>sqrt T\<bar>"
    by (simp only: abs_divide)
  also have "\<dots> = \<bar>nu0 - x0\<bar> / sqrt T"
    using reg(3) by (simp add: abs_minus_commute)
  also have "\<dots> \<le> (1 / 10 ^ 8 + brentq_rtol * \<bar>x0\<bar>) / sqrt T"
    using x(7) reg(3) \<open>x = nu0\<close> by (simp add: divide_right_mono)
  also have "\<dots> \<le> (1 / 10 ^ 8 + brentq_rtol * sqrt T) / sqrt T"
    using x(3) x0pos reg(3) brentq_rtol_nonneg
    by (intro divide_right_mono add_left_mono mult_left_mono) simp_all
  also have "\<dots> = 1 / 10 ^ 8 / sqrt T + brentq_rtol"
    using reg(3) by (simp add: field_simps)
  also have "\<dots> < 1 / 10 ^ 8 / (3 / 10) + 1 / 10 ^ 9"
  proof -
    have "1 / 10 ^ 8 / sqrt T < 1 / 10 ^ 8 / (3 / 10)"
      using s reg(2,3) by (intro divide_strict_left_mono) simp_all
    moreover have "brentq_rtol \<le> 1 / 10 ^ 9" by (simp add: brentq_rtol_def)
    ultimately show ?thesis by linarith
  qed
  also have "\<dots> < 1 / 10 ^ 6" by simp
  finally show ?thesis using x(1) pr by auto
qed

lemma implied_vol_round_trip_example:
  "brentq_contract brentq_bisect
   \<and> (5::real) / 100 < 3 / 10 \<and> (3::real) / 10 < 1 \<and> (1::real) / 10 < 1 \<and> (1::real) < 2
   \<and> (\<exists>iv. BlackImpliedVol brentq_bisect (BlackScholesPrice 1 1 0 (3 / 10) 1 1) 1 1 1 1 = Inr iv
          \<and> \<bar>iv - 3 / 10\<bar> < 1 / 10 ^ 6)"
  using implied_vol_round_trip [OF brentq_bisect_contract,
          where sigma = "3 / 10" and T = 1 and K = 1 and F = 1 and phi = 1]
        brentq_bisect_contract
  by simp

subsection \<open>Implied volatility in double precision\<close>

lemma rne_near:
  assumes "\<bar>x - of_int n\<bar> < 1 / 2"
  shows "rne x = n"
proof (cases "of_int n \<le> x")
  case True
  with assms have "\<lfloor>x\<rfloor> = n" by (intro floor_unique) linarith+
  with assms True show ?thesis by (simp add: rne_def Let_def)
next
  case False
  with assms have f: "\<lfloor>x\<rfloor> = n - 1" by (intro floor_unique) (simp, linarith+)
  have "1 / 2 < x - of_int (n - 1)" using assms False by simp
  with f show ?thesis by (simp add: rne_def Let_def)
qed

lemma rd_small:
  assumes lo: "1 / 2 ^ m \<le> x" and hi: "x < 2 / 2 ^ m"
    and near: "\<bar>x * 2 ^ (m + 52) - of_int n\<bar> < 1 / 2"
  shows "rd x = of_int n / 2 ^ (m + 52)"
proof -
  have "(0::real) < 1 / 2 ^ m" by simp
  then have pos: "0 < x" using lo by linarith
  have "log 2 (1 / 2 ^ m) \<le> log 2 x" using lo pos by simp
  moreover have "log 2 (1 / 2 ^ m) = - real m" by (simp add: log_divide)
  ultimately have l1: "- real m \<le> log 2 x" by simp
  have "log 2 x < log 2 (2 / 2 ^ m)" using hi pos by simp
  moreover have "log 2 (2 / 2 ^ m) = 1 - real m" by (simp add: log_divide)
  ultimately have l2: "log 2 x < 1 - real m" by simp
  have fl: "\<lfloor>log 2 x\<rfloor> = - int m" using l1 l2 by (intro floor_unique) simp_all
  have p: "(2::real) powr of_int (- int m - 52) = 1 / 2 ^ (m + 52)"
  proof -
    have "(2::real) powr (- real (m + 52)) = inverse (2 powr real (m + 52))"
      by (rule powr_minus)
    also have "(2::real) powr real (m + 52) = 2 ^ (m + 52)"
      by (rule powr_realpow) simp
    finally have "(2::real) powr (- real (m + 52)) = 1 / 2 ^ (m + 52)"
      by (simp add: inverse_eq_divide)
    moreover have "real_of_int (- int m - 52) = - real (m + 52)" by simp
    ultimately show ?thesis by (simp only:)
  qed
  have p2: "(2::real) powr (- real m - 52) = 1 / 2 ^ (m + 52)"
    using p by simp
  have "rne (x / (1 / 2 ^ (m + 52))) = n" using near by (intro rne_near) simp
  then show ?thesis using pos by (simp add: rd_def Let_def fl p2)
qed

lemma rd_0: "rd 0 = 0"
  by (simp add: rd_def)

lemma double_T: "rd (153 / 1000) = 5512405943901487 / 2 ^ 55"
  using rd_small [of 3 "153 / 1000" 5512405943901487] by simp

lemma double_c: "rd (1 / 100) = 5764607523034235 / 2 ^ 59"
  using rd_small [of 7 "1 / 100" 5764607523034235] by simp

lemma near_from_bounds:
  fixes S k n :: real
  assumes "(n - 1 / 2) / k < S" "S < (n + 1 / 2) / k" "0 < k"
  shows "\<bar>S * k - n\<bar> < 1 / 2"
proof -
  have "n - 1 / 2 < S * k" using assms(1,3) by (simp add: pos_divide_less_eq)
  moreover have "S * k < n + 1 / 2" using assms(2,3) by (simp add: pos_less_divide_eq)
  ultimately show ?thesis by linarith
qed

lemma double_s: "rd (sqrt (5512405943901487 / 2 ^ 55)) = 7046370605477638 / 2 ^ 54"
proof -
  let ?T = "5512405943901487 / 2 ^ 55 :: real"
  have l: "(7046370605477638 - 1 / 2) / 2 ^ 54 < sqrt ?T"
    by (rule real_less_rsqrt) (simp add: power2_eq_square)
  have u: "sqrt ?T < (7046370605477638 + 1 / 2) / 2 ^ 54"
    by (rule real_less_lsqrt) (simp_all add: power2_eq_square)
  have "\<bar>sqrt ?T * 2 ^ 54 - 7046370605477638\<bar> < 1 / 2"
    by (rule near_from_bounds [OF l u]) simp
  then have "\<bar>sqrt ?T * 2 ^ (2 + 52) - of_int 7046370605477638\<bar> < 1 / 2"
    by simp
  moreover have "1 / 2 ^ 2 \<le> sqrt ?T" using l by simp
  moreover have "sqrt ?T < 2 / 2 ^ 2" using u by simp
  ultimately show ?thesis using rd_small [of 2 "sqrt ?T" 7046370605477638] by simp
qed

lemma double_lo:
  "rd (5764607523034235 / 2 ^ 59 * (7046370605477638 / 2 ^ 54)) = 4509677187505688 / 2 ^ 60"
  using rd_small [of 8 "5764607523034235 / 2 ^ 59 * (7046370605477638 / 2 ^ 54)" 4509677187505688]
  by simp

lemma double_r:
  "rd (4509677187505688 / 2 ^ 60 / (7046370605477638 / 2 ^ 54)) = 5764607523034234 / 2 ^ 59"
  using rd_small [of 7 "4509677187505688 / 2 ^ 60 / (7046370605477638 / 2 ^ 54)" 5764607523034234]
  by simp

lemma bisect_zero_end: "f a = 0 \<Longrightarrow> bisect n f a b = a"
  by (induction n arbitrary: b) (simp_all add: Let_def)

lemma brentq_bisect_exact_end: "exact_end brentq_bisect"
  by (simp add: exact_end_def brentq_bisect_def bisect_zero_end)

lemma implied_vol_rounds_below:
  assumes "exact_end brentq"
  shows "BlackImpliedVol_fl brentq Black_fl
           (Black_fl F K (rd (rd (1 / 100) * rd (sqrt (rd (153 / 1000))))) phi)
           K F (rd (153 / 1000)) phi
         = Inr (5764607523034234 / 2 ^ 59)"
proof -
  define lo :: real where "lo = 4509677187505688 / 2 ^ 60"
  define s :: real where "s = 7046370605477638 / 2 ^ 54"
  define price where "price = Black_fl F K lo phi"
  define hi where "hi = rd (rd 1 * s)"
  define xtol :: real where "xtol = rd (1 / 10 ^ 8)"
  have s: "rd (sqrt (rd (153 / 1000))) = s"
    unfolding s_def by (simp only: double_T double_s)
  have lo: "rd (rd (1 / 100) * s) = lo"
    unfolding s_def lo_def by (simp only: double_c double_lo)
  have r: "rd (lo / s) = 5764607523034234 / 2 ^ 59"
    unfolding s_def lo_def by (rule double_r)
  have "rd (Black_fl F K lo phi - price) = 0"
    by (simp add: price_def rd_0)
  then have "brentq (\<lambda>nu. rd (Black_fl F K nu phi - price)) lo hi xtol = Inr lo"
    using assms [unfolded exact_end_def, rule_format,
            of "\<lambda>nu. rd (Black_fl F K nu phi - price)" lo hi xtol]
    by simp
  then show ?thesis
    unfolding BlackImpliedVol_fl_def Let_def s lo hi_def [symmetric] xtol_def [symmetric]
      price_def [symmetric]
    by (simp only: sum.case r)
qed

text \<open>
  The rounding \<open>rd\<close> is within half a unit in the last place: a relative error of at
  most \<open>2^-53\<close>. It keeps signs, is monotone around \<open>1\<close> and is idempotent.
\<close>

lemma rne_error: "\<bar>of_int (rne y) - y\<bar> \<le> 1 / 2"
proof -
  have "of_int \<lfloor>y\<rfloor> \<le> y" "y < of_int \<lfloor>y\<rfloor> + 1" by linarith+
  then show ?thesis by (auto simp: rne_def Let_def) 
qed

lemma rne_int: "rne (of_int n) = n"
  by (rule rne_near) simp

lemma rne_le:
  assumes "y \<le> of_int N"
  shows "rne y \<le> N"
proof -
  have "of_int (rne y) \<le> y + 1 / 2" using rne_error [of y] by linarith
  then have "real_of_int (rne y) < of_int N + 1" using assms by linarith
  then show ?thesis by linarith
qed

lemma rne_ge:
  assumes "of_int N \<le> y"
  shows "N \<le> rne y"
proof -
  have "y - 1 / 2 \<le> of_int (rne y)" using rne_error [of y] by linarith
  then have "real_of_int N - 1 < of_int (rne y)" using assms by linarith
  then show ?thesis by linarith
qed

lemma floor_log2:
  assumes "2 powr of_int k \<le> x" "x < 2 powr (of_int k + 1)"
  shows "\<lfloor>log 2 x\<rfloor> = k"
proof (rule floor_unique)
  have "(0::real) < 2 powr of_int k" by simp
  then have pos: "0 < x" using assms(1) by linarith
  show "of_int k \<le> log 2 x"
    using assms(1) pos by (simp add: le_log_iff)
  have "\<not> of_int k + 1 \<le> log 2 x"
    using assms(2) pos by (simp add: le_log_iff)
  then show "log 2 x < of_int k + 1" by simp
qed

lemma log2_bounds:
  assumes "0 < x"
  shows "2 powr of_int \<lfloor>log 2 x\<rfloor> \<le> x" "x < 2 powr (of_int \<lfloor>log 2 x\<rfloor> + 1)"
proof -
  have x: "2 powr log 2 x = x" using assms by simp
  have "2 powr of_int \<lfloor>log 2 x\<rfloor> \<le> 2 powr log 2 x"
    by (rule powr_mono) simp_all
  then show "2 powr of_int \<lfloor>log 2 x\<rfloor> \<le> x" by (simp only: x)
  have "2 powr log 2 x < 2 powr (of_int \<lfloor>log 2 x\<rfloor> + 1)"
    by (rule powr_less_mono) (linarith, simp)
  then show "x < 2 powr (of_int \<lfloor>log 2 x\<rfloor> + 1)" by (simp only: x)
qed

lemma pow2_shift: "(2::real) powr of_int (k - 52) = 2 powr of_int k / 2 ^ 52"
proof -
  have "(2::real) powr of_int (k - 52) = 2 powr (of_int k - 52)" by simp
  also have "\<dots> = 2 powr of_int k / 2 powr 52" by (rule powr_diff)
  also have "(2::real) powr 52 = 2 ^ 52" by (rule powr_numeral) simp
  finally show ?thesis .
qed

lemma pow2_next: "(2::real) powr (of_int k + 1) = 2 * 2 powr of_int k"
  by (simp add: powr_add)

lemma rd_form:
  assumes "2 powr of_int k \<le> x" "x < 2 powr (of_int k + 1)"
  shows "rd x = of_int (rne (x * 2 ^ 52 / 2 powr of_int k)) * (2 powr of_int k / 2 ^ 52)"
proof -
  have "(0::real) < 2 powr of_int k" by simp
  then have pos: "0 < x" using assms(1) by linarith
  have fl: "\<lfloor>log 2 x\<rfloor> = k" using assms by (rule floor_log2)
  have "rd x = of_int (rne (x / 2 powr of_int (k - 52))) * 2 powr of_int (k - 52)"
    using pos by (simp add: rd_def Let_def fl)
  then show ?thesis by (simp only: pow2_shift) (simp add: field_simps)
qed

lemma significand_bounds:
  fixes x :: real
  assumes "2 powr of_int k \<le> x" "x < 2 powr (of_int k + 1)"
  shows "2 ^ 52 \<le> x * 2 ^ 52 / 2 powr of_int k" "x * 2 ^ 52 / 2 powr of_int k < 2 ^ 53"
proof -
  have p: "(0::real) < 2 powr of_int k" by simp
  show "2 ^ 52 \<le> x * 2 ^ 52 / 2 powr of_int k"
    using assms(1) p by (simp add: pos_le_divide_eq)
  have "x < 2 * 2 powr of_int k" using assms(2) by (simp only: pow2_next)
  then show "x * 2 ^ 52 / 2 powr of_int k < 2 ^ 53"
    using p by (simp add: pos_divide_less_eq)
qed

lemma rd_rel_error:
  assumes "0 < x"
  shows "\<bar>rd x - x\<bar> \<le> x / 2 ^ 53"
proof -
  define k where "k = \<lfloor>log 2 x\<rfloor>"
  define c :: real where "c = 2 powr of_int k / 2 ^ 52"
  define y where "y = x * 2 ^ 52 / 2 powr of_int k"
  have b: "2 powr of_int k \<le> x" "x < 2 powr (of_int k + 1)"
    unfolding k_def using log2_bounds [OF assms] by simp_all
  have c: "0 < c" by (simp add: c_def)
  have cx: "c \<le> x / 2 ^ 52" using b(1) by (simp add: c_def divide_right_mono)
  have rd: "rd x = of_int (rne y) * c"
    unfolding y_def c_def by (rule rd_form [OF b])
  have x: "x = y * c" by (simp add: y_def c_def)
  have "rd x - x = of_int (rne y) * c - y * c"
    by (simp only: rd x [symmetric])
  then have "rd x - x = (of_int (rne y) - y) * c"
    by (simp only: left_diff_distrib)
  then have "\<bar>rd x - x\<bar> = \<bar>of_int (rne y) - y\<bar> * c"
    using c by (simp only: abs_mult abs_of_pos)
  also have "\<dots> \<le> 1 / 2 * c"
    using rne_error [of y] c by (intro mult_right_mono) simp_all
  also have "\<dots> \<le> 1 / 2 * (x / 2 ^ 52)"
    using cx by simp
  also have "\<dots> = x / 2 ^ 53" by simp
  finally show ?thesis .
qed

lemma rd_pos:
  assumes "0 < x"
  shows "0 < rd x"
proof -
  have "\<bar>rd x - x\<bar> \<le> x / 2 ^ 53" using assms by (rule rd_rel_error)
  moreover have "x / 2 ^ 53 < x" using assms by (simp add: field_simps)
  ultimately show ?thesis by linarith
qed

lemma rd_1: "rd 1 = 1"
proof -
  have "rd 1 = of_int (rne (1 * 2 ^ 52 / 2 powr of_int 0)) * (2 powr of_int 0 / 2 ^ 52)"
    by (rule rd_form) simp_all
  moreover have "rne (2 ^ 52) = 2 ^ 52" using rne_int [of "2 ^ 52"] by simp
  ultimately show ?thesis by simp
qed

lemma pow2_nonpos:
  assumes "k \<le> 0"
  shows "(2::real) powr of_int k = 1 / 2 ^ nat (- k)"
proof -
  have "real_of_int k = - real (nat (- k))" using assms by linarith
  then have "(2::real) powr of_int k = 2 powr (- real (nat (- k)))" by (simp only:)
  also have "\<dots> = inverse (2 powr real (nat (- k)))" by (rule powr_minus)
  also have "(2::real) powr real (nat (- k)) = 2 ^ nat (- k)" by (rule powr_realpow) simp
  finally show ?thesis by (simp only: inverse_eq_divide)
qed

lemma rd_le_1:
  assumes "0 < x" "x \<le> 1"
  shows "rd x \<le> 1"
proof -
  define k where "k = \<lfloor>log 2 x\<rfloor>"
  define N :: int where "N = 2 ^ 52 * 2 ^ nat (- k)"
  define c :: real where "c = 2 powr of_int k / 2 ^ 52"
  define y where "y = x * 2 ^ 52 / 2 powr of_int k"
  have b: "2 powr of_int k \<le> x" "x < 2 powr (of_int k + 1)"
    unfolding k_def using log2_bounds [OF assms(1)] by simp_all
  have "log 2 x \<le> 0" using assms by simp
  then have k: "k \<le> 0" unfolding k_def by linarith
  have p: "(2::real) powr of_int k = 1 / 2 ^ nat (- k)" using k by (rule pow2_nonpos)
  have N: "real_of_int N = 2 ^ 52 * 2 ^ nat (- k)" by (simp add: N_def)
  have Npos: "0 < real_of_int N" unfolding N by simp
  have yN: "y = x * of_int N" unfolding y_def p N by simp
  have "x * real_of_int N \<le> 1 * of_int N"
    using assms(2) Npos by (intro mult_right_mono) simp_all
  then have "y \<le> of_int N" unfolding yN by simp
  then have "rne y \<le> N" by (rule rne_le)
  then have le: "real_of_int (rne y) \<le> of_int N" by (simp only: of_int_le_iff)
  have c0: "0 \<le> c" by (simp add: c_def)
  have rd: "rd x = of_int (rne y) * c"
    unfolding y_def c_def by (rule rd_form [OF b])
  have Nc: "of_int N * c = 1" unfolding c_def p N by simp
  have "of_int (rne y) * c \<le> of_int N * c" using le c0 by (rule mult_right_mono)
  then show ?thesis unfolding rd Nc .
qed

lemma rd_idem:
  assumes "0 < x"
  shows "rd (rd x) = rd x"
proof -
  define k where "k = \<lfloor>log 2 x\<rfloor>"
  define P :: real where "P = 2 powr of_int k"
  define y where "y = x * 2 ^ 52 / 2 powr of_int k"
  define n where "n = rne y"
  have b: "2 powr of_int k \<le> x" "x < 2 powr (of_int k + 1)"
    unfolding k_def using log2_bounds [OF assms] by simp_all
  have P: "0 < P" by (simp add: P_def)
  have rd: "rd x = of_int n * (P / 2 ^ 52)"
    unfolding n_def y_def P_def by (rule rd_form [OF b])
  have "of_int (2 ^ 52) \<le> y" "y \<le> of_int (2 ^ 53)"
    unfolding y_def using significand_bounds [OF b] by simp_all
  then have n: "2 ^ 52 \<le> n" "n \<le> 2 ^ 53"
    unfolding n_def by (simp_all only: rne_ge rne_le)
  show ?thesis
  proof (cases "n = 2 ^ 53")
    case True
    have z: "rd x = 2 powr of_int (k + 1)"
      unfolding rd True P_def by (simp add: powr_add)
    have "rd (rd x) = of_int (rne (rd x * 2 ^ 52 / 2 powr of_int (k + 1)))
             * (2 powr of_int (k + 1) / 2 ^ 52)"
      by (rule rd_form) (simp_all add: z powr_add)
    also have "rd x * 2 ^ 52 / 2 powr of_int (k + 1) = of_int (2 ^ 52)"
      unfolding z by simp
    also have "rne (of_int (2 ^ 52)) = 2 ^ 52" by (rule rne_int)
    finally show ?thesis unfolding z by simp
  next
    case False
    with n have n53: "n < 2 ^ 53" by simp
    have lo: "2 powr of_int k \<le> rd x"
    proof -
      have "real_of_int (2 ^ 52) \<le> of_int n" using n(1) by (simp only: of_int_le_iff)
      then have "2 ^ 52 * (P / 2 ^ 52) \<le> of_int n * (P / 2 ^ 52)"
        using P by (intro mult_right_mono) simp_all
      then show ?thesis unfolding rd P_def by simp
    qed
    have hi: "rd x < 2 powr (of_int k + 1)"
    proof -
      have "real_of_int n < of_int (2 ^ 53)" using n53 by (simp only: of_int_less_iff)
      then have "of_int n * (P / 2 ^ 52) < 2 ^ 53 * (P / 2 ^ 52)"
        using P by (intro mult_strict_right_mono) simp_all
      then show ?thesis unfolding rd P_def by (simp add: powr_add)
    qed
    have "rd (rd x) = of_int (rne (rd x * 2 ^ 52 / 2 powr of_int k)) * (2 powr of_int k / 2 ^ 52)"
      by (rule rd_form [OF lo hi])
    also have "rd x * 2 ^ 52 / 2 powr of_int k = of_int n"
      unfolding rd P_def by simp
    also have "rne (of_int n) = n" by (rule rne_int)
    finally show ?thesis unfolding rd P_def .
  qed
qed

lemma rd_minus: "rd (- x) = - rd x"
  by (simp add: rd_def Let_def)

lemma rd_sign: "0 < rd x \<longleftrightarrow> 0 < x" "rd x < 0 \<longleftrightarrow> x < 0"
proof -
  have neg: "rd x < 0" if "x < 0"
  proof -
    have "0 < rd (- x)" using that by (intro rd_pos) simp
    then show ?thesis by (simp add: rd_minus)
  qed
  show "0 < rd x \<longleftrightarrow> 0 < x"
    using rd_pos [of x] neg rd_0 by (cases x "0::real" rule: linorder_cases) auto
  show "rd x < 0 \<longleftrightarrow> x < 0"
    using rd_pos [of x] neg rd_0 by (cases x "0::real" rule: linorder_cases) auto
qed

text \<open>
  The bracket in doubles, and the bound on a returned value: the lower end
  \<open>rd (rd 0.01 * rd (sqrt T))\<close> divided by \<open>rd (sqrt T)\<close> loses at most two roundings
  against \<open>0.01\<close>, and the upper end is \<open>rd (sqrt T)\<close> itself, whose quotient by itself
  is exactly \<open>1\<close>.
\<close>

lemma abs_error_bounds:
  fixes r x u :: real
  assumes "\<bar>r - x\<bar> \<le> x * u"
  shows "x * (1 - u) \<le> r" and "r \<le> x * (1 + u)"
  using assms by (simp_all add: algebra_simps abs_le_iff)

lemma rd_lower:
  assumes "0 < x"
  shows "x * (1 - 1 / 2 ^ 53) \<le> rd x"
proof -
  have "\<bar>rd x - x\<bar> \<le> x * (1 / 2 ^ 53)" using rd_rel_error [OF assms] by simp
  then show ?thesis by (rule abs_error_bounds(1))
qed

lemma rd_upper:
  assumes "0 < x"
  shows "rd x \<le> x * (1 + 1 / 2 ^ 53)"
proof -
  have "\<bar>rd x - x\<bar> \<le> x * (1 / 2 ^ 53)" using rd_rel_error [OF assms] by simp
  then show ?thesis by (rule abs_error_bounds(2))
qed

lemma bracket_fl:
  assumes "0 < T"
  defines "s \<equiv> rd (sqrt T)"
  shows "0 < s" and "rd (rd 1 * s) = s"
    and "1 / 100 * (1 - 1 / 2 ^ 53) * s \<le> rd (rd (1 / 100) * s)"
    and "rd (rd (1 / 100) * s) < s"
proof -
  show s: "0 < s" unfolding s_def using assms(1) by (intro rd_pos) simp
  show "rd (rd 1 * s) = s"
    unfolding s_def rd_1 using assms(1) by (simp add: rd_idem)
  define c :: real where "c = 5764607523034235 / 2 ^ 59"
  have c: "rd (1 / 100) = c" unfolding c_def by (rule double_c)
  have c1: "1 / 100 \<le> c" "c < 1 / 64" by (simp_all add: c_def)
  have cs: "0 < c * s" using s c1 by (simp add: c_def)
  have "c * s * (1 - 1 / 2 ^ 53) \<le> rd (c * s)" using cs by (rule rd_lower)
  moreover have "1 / 100 * (1 - 1 / 2 ^ 53) * s \<le> c * s * (1 - 1 / 2 ^ 53)"
    using c1(1) s by (simp add: mult_right_mono)
  ultimately show "1 / 100 * (1 - 1 / 2 ^ 53) * s \<le> rd (rd (1 / 100) * s)"
    unfolding c by linarith
  have "rd (c * s) \<le> c * s * (1 + 1 / 2 ^ 53)" using cs by (rule rd_upper)
  moreover have "c * s * (1 + 1 / 2 ^ 53) < s"
  proof -
    have "c * (1 + 1 / 2 ^ 53) < 1" by (simp add: c_def)
    then have "c * (1 + 1 / 2 ^ 53) * s < 1 * s" using s by (intro mult_strict_right_mono)
    then show ?thesis by (simp add: mult_ac)
  qed
  ultimately show "rd (rd (1 / 100) * s) < s" unfolding c by linarith
qed

lemma implied_vol_fl_in_bracket:
  assumes c: "brentq_contract brentq" and T: "0 < T"
    and r: "BlackImpliedVol_fl brentq Black_fl price strike forward T callOrPut = Inr v"
  shows "1 / 100 * (1 - 1 / 2 ^ 52) \<le> v \<and> v \<le> 1"
proof -
  define s where "s = rd (sqrt T)"
  define a where "a = rd (rd (1 / 100) * s)"
  define f where "f = (\<lambda>nu. rd (Black_fl forward strike nu callOrPut - price))"
  define xtol :: real where "xtol = rd (1 / 10 ^ 8)"
  note br = bracket_fl [OF T, folded s_def]
  have s: "0 < s" by (rule br(1))
  have lo: "1 / 100 * (1 - 1 / 2 ^ 53) * s \<le> a" unfolding a_def by (rule br(3))
  have ab: "a < s" unfolding a_def by (rule br(4))
  have "0 < xtol" unfolding xtol_def by (intro rd_pos) simp
  with ab have pre: "a < s \<and> 0 < xtol" by simp
  note spec = c [unfolded brentq_contract_def, rule_format, OF pre, of f]
  have run: "BlackImpliedVol_fl brentq Black_fl price strike forward T callOrPut
      = (case brentq f a s xtol of Inl e \<Rightarrow> Inl e | Inr x \<Rightarrow> Inr (rd (x / s)))"
    unfolding BlackImpliedVol_fl_def Let_def s_def [symmetric] br(2) a_def f_def xtol_def ..
  have "\<not> 0 < f a * f s"
  proof
    assume "0 < f a * f s"
    from spec [THEN conjunct1, rule_format, OF this] r show False by (simp add: run)
  qed
  then have "f a * f s \<le> 0" by simp
  from spec [THEN conjunct2, rule_format, OF this] obtain x0 where
    x0: "brentq f a s xtol = Inr x0" "a \<le> x0" "x0 \<le> s" by blast
  have v: "v = rd (x0 / s)" using r x0(1) by (simp add: run)
  have apos: "0 < a"
  proof -
    have "(0::real) < 1 / 100 * (1 - 1 / 2 ^ 53) * s" using s by simp
    then show ?thesis using lo by linarith
  qed
  have q: "0 < x0 / s" "x0 / s \<le> 1" using x0(2,3) apos s by simp_all
  have up: "v \<le> 1" unfolding v using q by (rule rd_le_1)
  have "1 / 100 * (1 - 1 / 2 ^ 53) \<le> x0 / s"
  proof -
    have "1 / 100 * (1 - 1 / 2 ^ 53) * s \<le> x0" using lo x0(2) by linarith
    then show ?thesis using s by (simp add: pos_le_divide_eq)
  qed
  then have "1 / 100 * (1 - 1 / 2 ^ 53) * (1 - 1 / 2 ^ 53) \<le> x0 / s * (1 - 1 / 2 ^ 53)"
    by (intro mult_right_mono) simp_all
  moreover have "x0 / s * (1 - 1 / 2 ^ 53) \<le> v" unfolding v using q(1) by (rule rd_lower)
  moreover have "(1::real) / 100 * (1 - 1 / 2 ^ 52)
      \<le> 1 / 100 * (1 - 1 / 2 ^ 53) * (1 - 1 / 2 ^ 53)" by simp
  ultimately have "1 / 100 * (1 - 1 / 2 ^ 52) \<le> v" by linarith
  with up show ?thesis by simp
qed

text \<open>
  The failure criterion in doubles, for any evaluation \<open>Black_fl\<close> of the Black formula:
  the call raises exactly when the price is strictly below, or strictly above, the two
  computed values at the ends of the bracket.
\<close>

lemma implied_vol_fl_failure:
  assumes c: "brentq_contract brentq" and T: "0 < T"
  shows "BlackImpliedVol_fl brentq Black_fl price K F T phi = Inl NoRootInBracket
     \<longleftrightarrow> (price < Black_fl F K (rd (rd (1 / 100) * rd (sqrt T))) phi
            \<and> price < Black_fl F K (rd (rd 1 * rd (sqrt T))) phi)
        \<or> (Black_fl F K (rd (rd (1 / 100) * rd (sqrt T))) phi < price
            \<and> Black_fl F K (rd (rd 1 * rd (sqrt T))) phi < price)"
proof -
  define a where "a = rd (rd (1 / 100) * rd (sqrt T))"
  define b where "b = rd (rd 1 * rd (sqrt T))"
  define f where "f = (\<lambda>nu. rd (Black_fl F K nu phi - price))"
  define xtol :: real where "xtol = rd (1 / 10 ^ 8)"
  note br = bracket_fl [OF T]
  have ab: "a < b" unfolding a_def b_def br(2) by (rule br(4))
  have "0 < xtol" unfolding xtol_def by (intro rd_pos) simp
  with ab have pre: "a < b \<and> 0 < xtol" by simp
  note spec = c [unfolded brentq_contract_def, rule_format, OF pre, of f]
  have run: "BlackImpliedVol_fl brentq Black_fl price K F T phi
      = (case brentq f a b xtol of Inl e \<Rightarrow> Inl e | Inr x \<Rightarrow> Inr (rd (x / rd (sqrt T))))"
    unfolding BlackImpliedVol_fl_def Let_def a_def b_def f_def xtol_def ..
  have "BlackImpliedVol_fl brentq Black_fl price K F T phi = Inl NoRootInBracket
      \<longleftrightarrow> 0 < f a * f b"
  proof (cases "0 < f a * f b")
    case True
    from spec [THEN conjunct1, rule_format, OF True] True show ?thesis by (simp add: run)
  next
    case False
    then have "f a * f b \<le> 0" by simp
    from spec [THEN conjunct2, rule_format, OF this] False show ?thesis by (auto simp: run)
  qed
  also have "0 < f a * f b \<longleftrightarrow>
      (price < Black_fl F K a phi \<and> price < Black_fl F K b phi)
    \<or> (Black_fl F K a phi < price \<and> Black_fl F K b phi < price)"
    unfolding f_def by (auto simp: zero_less_mult_iff rd_sign)
  finally show ?thesis unfolding a_def b_def .
qed

text \<open>
  Claim C10. For every root finder that meets the contract of \<open>brentq\<close> and every
  \<open>T > 0\<close>: whenever \<open>BlackImpliedVol\<close> returns a value, the value lies in the closed
  interval \<open>[0.01, 1.00]\<close> in exact real arithmetic, and in
  \<open>[0.01 * (1 - 2^-52), 1.00]\<close> in double precision, for any evaluation \<open>Black_fl\<close> of
  the Black formula in doubles. The upper bound \<open>1.00\<close> survives the rounding, the lower
  bound \<open>0.01\<close> only up to the rounding of the bracket end and of the final division.
\<close>

theorem implied_vol_in_bracket:
  assumes "brentq_contract brentq" and "0 < T"
  shows "(\<forall>sigma. BlackImpliedVol brentq price strike forward T callOrPut = Inr sigma
            \<longrightarrow> 1 / 100 \<le> sigma \<and> sigma \<le> 1)
       \<and> (\<forall>Black_fl v.
            BlackImpliedVol_fl brentq Black_fl price strike forward T callOrPut = Inr v
            \<longrightarrow> 1 / 100 * (1 - 1 / 2 ^ 52) \<le> v \<and> v \<le> 1)"
  using implied_vol_real_in_bracket [OF assms] implied_vol_fl_in_bracket [OF assms] by blast

theorem implied_vol_in_bracket_witness:
  "brentq_contract brentq_bisect \<and> (0::real) < 1 \<and> 0 < rd (153 / 1000)
   \<and> (\<exists>sigma. BlackImpliedVol brentq_bisect (Black 1 1 (1 / 100) 1) 1 1 1 1 = Inr sigma
         \<and> 1 / 100 \<le> sigma \<and> sigma \<le> 1)
   \<and> (\<exists>v. BlackImpliedVol_fl brentq_bisect Black_rounded
              (Black_rounded 1 1 (rd (rd (1 / 100) * rd (sqrt (rd (153 / 1000))))) 1)
              1 1 (rd (153 / 1000)) 1 = Inr v
         \<and> 1 / 100 * (1 - 1 / 2 ^ 52) \<le> v \<and> v \<le> 1)"
proof -
  have T: "0 < rd (153 / 1000)" by (simp add: double_T)
  obtain sigma where
    s: "BlackImpliedVol brentq_bisect (Black 1 1 (1 / 100) 1) 1 1 1 1 = Inr sigma"
    by (simp add: BlackImpliedVol_def brentq_bisect_def)
  have 1: "1 / 100 \<le> sigma \<and> sigma \<le> 1"
    using implied_vol_in_bracket [OF brentq_bisect_contract zero_less_one, THEN conjunct1]
      s by blast
  note v = implied_vol_rounds_below [OF brentq_bisect_exact_end,
      where Black_fl = Black_rounded and F = 1 and K = 1 and phi = 1]
  have 2: "1 / 100 * (1 - 1 / 2 ^ 52) \<le> (5764607523034234 / 2 ^ 59 :: real)
         \<and> (5764607523034234 / 2 ^ 59 :: real) \<le> 1"
    using implied_vol_in_bracket [OF brentq_bisect_contract T, THEN conjunct2] v by blast
  have z: "(0::real) < 1" by simp
  from s 1 v 2 T z brentq_bisect_contract show ?thesis by blast
qed

text \<open>
  Claim C10 as stated, for the code's doubles, fails at \<open>T = 0.153\<close>,
  \<open>forward = strike = 1\<close>, \<open>callOrPut = +1\<close> and the price that \<open>Black\<close> returns at the
  lower end \<open>0.01 * sqrt T\<close> of the bracket. The objective is exactly zero at the lower
  end, whatever the value of \<open>Black\<close> in doubles, so the root finder returns the lower
  end, and the quotient \<open>(0.01 * sqrt T) / sqrt T\<close> rounds to
  \<open>5764607523034234 / 2^59 = 0.009999999999999998\<close>, below \<open>0.01\<close>.
\<close>

theorem implied_vol_rounding_counterexample:
  "exact_end brentq_bisect
   \<and> BlackImpliedVol_fl brentq_bisect Black_rounded
        (Black_rounded 1 1 (rd (rd (1 / 100) * rd (sqrt (rd (153 / 1000))))) 1)
        1 1 (rd (153 / 1000)) 1
       = Inr (5764607523034234 / 2 ^ 59)
   \<and> (5764607523034234 / 2 ^ 59 :: real) < 1 / 100"
proof -
  have "(5764607523034234 / 2 ^ 59 :: real) < 1 / 100" by simp
  then show ?thesis
    using brentq_bisect_exact_end implied_vol_rounds_below [OF brentq_bisect_exact_end]
    by blast
qed

end
